theory Spec2Isabelle
  imports Main "HOL-Library.Word" "HOL-Library.FSet" "HOL-Library.Monad_Syntax"
begin

unbundle bit_operations_syntax

section \<open>Go runtime conventions\<close>

text \<open>
  A run-time panic of the Go code (index out of range, negative shift count, nil
  dereference) is the result \<open>None\<close>; every function that can panic returns an
  \<open>option\<close>.  Go's \<open>uint\<close> base indices stay below 1024 in every computation
  modelled here, so they are natural numbers; an octet (\<open>byte\<close>) is an 8-bit word and
  \<open>int\<close> is an integer.
\<close>

type_synonym octet = "8 word"

text \<open>\<open>xs[i]\<close> for an \<open>int\<close> index: panics outside \<open>0 .. len(xs) - 1\<close>.\<close>

definition index :: "'a list \<Rightarrow> int \<Rightarrow> 'a option" where
  "index xs i = (if 0 \<le> i \<and> i < int (length xs) then Some (xs ! nat i) else None)"

text \<open>\<open>xs[i] = v\<close>: panics outside \<open>0 .. len(xs) - 1\<close>.\<close>

definition assign :: "'a list \<Rightarrow> int \<Rightarrow> 'a \<Rightarrow> 'a list option" where
  "assign xs i v = (if 0 \<le> i \<and> i < int (length xs) then Some (xs[nat i := v]) else None)"

text \<open>\<open>slices.Insert(xs, i, v)\<close>: panics unless \<open>0 \<le> i \<le> len(xs)\<close>.\<close>

definition slices_Insert :: "'a list \<Rightarrow> int \<Rightarrow> 'a \<Rightarrow> 'a list option" where
  "slices_Insert xs i v =
     (if 0 \<le> i \<and> i \<le> int (length xs) then Some (take (nat i) xs @ v # drop (nat i) xs) else None)"

text \<open>\<open>slices.Delete(xs, i, j)\<close>: panics unless \<open>0 \<le> i \<le> j \<le> len(xs)\<close>.\<close>

definition slices_Delete :: "'a list \<Rightarrow> int \<Rightarrow> int \<Rightarrow> 'a list option" where
  "slices_Delete xs i j =
     (if 0 \<le> i \<and> i \<le> j \<and> j \<le> int (length xs) then Some (take (nat i) xs @ drop (nat j) xs) else None)"

section \<open>The bit set collaborator\<close>

text \<open>
  Modelled from the spec: the bit set (package \<open>github.com/bits-and-blooms/bitset\<close>) is
  not part of the sources; section 4.2 of the specification gives its interface: a
  finite set of small natural numbers with \<open>test\<close>, \<open>set\<close>, \<open>clear\<close>, \<open>rank\<close> (the
  number of set bits with index \<open>\<le> i\<close>), \<open>next_set\<close> (the smallest set index
  \<open>\<ge> from\<close>, with \<open>(0, false)\<close> when there is none), \<open>popcount\<close>, \<open>clone\<close> and
  \<open>compact\<close> (which only shrinks the backing storage).
\<close>

type_synonym bitset = "nat fset"

definition New :: bitset where
  "New = {||}"

definition Test :: "bitset \<Rightarrow> nat \<Rightarrow> bool" where
  "Test b i = (i |\<in>| b)"

definition Set :: "bitset \<Rightarrow> nat \<Rightarrow> bitset" where
  "Set b i = finsert i b"

definition Clear :: "bitset \<Rightarrow> nat \<Rightarrow> bitset" where
  "Clear b i = b |-| {|i|}"

definition Rank :: "bitset \<Rightarrow> nat \<Rightarrow> nat" where
  "Rank b i = card {j \<in> fset b. j \<le> i}"

definition Count :: "bitset \<Rightarrow> nat" where
  "Count b = card (fset b)"

definition NextSet :: "bitset \<Rightarrow> nat \<Rightarrow> nat \<times> bool" where
  "NextSet b i = (if {j \<in> fset b. i \<le> j} = {} then (0, False)
                  else (Min {j \<in> fset b. i \<le> j}, True))"

definition Compact :: "bitset \<Rightarrow> bitset" where
  "Compact b = b"

definition Clone :: "bitset \<Rightarrow> bitset" where
  "Clone b = b"

section \<open>Base index codec (base\_index.go)\<close>

definition strideLen :: int where
  "strideLen = 8"

definition maxNodeChildren :: nat where
  "maxNodeChildren = 256"

definition maxNodePrefixes :: nat where
  "maxNodePrefixes = 512"

definition hostMasks :: "octet list" where
  "hostMasks = [0xFF, 0x7F, 0x3F, 0x1F, 0x0F, 0x07, 0x03, 0x01, 0x00]"

definition firstHostIndex :: nat where
  "firstHostIndex = 256"

definition lastHostIndex :: nat where
  "lastHostIndex = 511"

text \<open>
  \<open>uint(octet >> (strideLen - prefixLen)) + (1 << prefixLen)\<close>.  A negative shift
  count panics, so the function is defined for \<open>0 \<le> prefixLen \<le> 8\<close> only; there the
  sum is at most 511 and the 64-bit \<open>uint\<close> does not wrap.
\<close>

definition prefixToBaseIndex :: "octet \<Rightarrow> int \<Rightarrow> nat option" where
  "prefixToBaseIndex octet prefixLen =
     (if strideLen - prefixLen < 0 \<or> prefixLen < 0 then None
      else Some (unat (drop_bit (nat (strideLen - prefixLen)) octet) + push_bit (nat prefixLen) 1))"

definition octetToBaseIndex :: "octet \<Rightarrow> nat" where
  "octetToBaseIndex octet = unat octet + firstHostIndex"

definition baseIdx2Pfx :: "(octet \<times> int) list" where
  "baseIdx2Pfx = [
    (0, - 1), (0, 0), (0, 1), (128, 1), (0, 2), (64, 2), (128, 2), (192, 2),
    (0, 3), (32, 3), (64, 3), (96, 3), (128, 3), (160, 3), (192, 3), (224, 3),
    (0, 4), (16, 4), (32, 4), (48, 4), (64, 4), (80, 4), (96, 4), (112, 4),
    (128, 4), (144, 4), (160, 4), (176, 4), (192, 4), (208, 4), (224, 4), (240, 4),
    (0, 5), (8, 5), (16, 5), (24, 5), (32, 5), (40, 5), (48, 5), (56, 5),
    (64, 5), (72, 5), (80, 5), (88, 5), (96, 5), (104, 5), (112, 5), (120, 5),
    (128, 5), (136, 5), (144, 5), (152, 5), (160, 5), (168, 5), (176, 5), (184, 5),
    (192, 5), (200, 5), (208, 5), (216, 5), (224, 5), (232, 5), (240, 5), (248, 5),
    (0, 6), (4, 6), (8, 6), (12, 6), (16, 6), (20, 6), (24, 6), (28, 6),
    (32, 6), (36, 6), (40, 6), (44, 6), (48, 6), (52, 6), (56, 6), (60, 6),
    (64, 6), (68, 6), (72, 6), (76, 6), (80, 6), (84, 6), (88, 6), (92, 6),
    (96, 6), (100, 6), (104, 6), (108, 6), (112, 6), (116, 6), (120, 6), (124, 6),
    (128, 6), (132, 6), (136, 6), (140, 6), (144, 6), (148, 6), (152, 6), (156, 6),
    (160, 6), (164, 6), (168, 6), (172, 6), (176, 6), (180, 6), (184, 6), (188, 6),
    (192, 6), (196, 6), (200, 6), (204, 6), (208, 6), (212, 6), (216, 6), (220, 6),
    (224, 6), (228, 6), (232, 6), (236, 6), (240, 6), (244, 6), (248, 6), (252, 6),
    (0, 7), (2, 7), (4, 7), (6, 7), (8, 7), (10, 7), (12, 7), (14, 7),
    (16, 7), (18, 7), (20, 7), (22, 7), (24, 7), (26, 7), (28, 7), (30, 7),
    (32, 7), (34, 7), (36, 7), (38, 7), (40, 7), (42, 7), (44, 7), (46, 7),
    (48, 7), (50, 7), (52, 7), (54, 7), (56, 7), (58, 7), (60, 7), (62, 7),
    (64, 7), (66, 7), (68, 7), (70, 7), (72, 7), (74, 7), (76, 7), (78, 7),
    (80, 7), (82, 7), (84, 7), (86, 7), (88, 7), (90, 7), (92, 7), (94, 7),
    (96, 7), (98, 7), (100, 7), (102, 7), (104, 7), (106, 7), (108, 7), (110, 7),
    (112, 7), (114, 7), (116, 7), (118, 7), (120, 7), (122, 7), (124, 7), (126, 7),
    (128, 7), (130, 7), (132, 7), (134, 7), (136, 7), (138, 7), (140, 7), (142, 7),
    (144, 7), (146, 7), (148, 7), (150, 7), (152, 7), (154, 7), (156, 7), (158, 7),
    (160, 7), (162, 7), (164, 7), (166, 7), (168, 7), (170, 7), (172, 7), (174, 7),
    (176, 7), (178, 7), (180, 7), (182, 7), (184, 7), (186, 7), (188, 7), (190, 7),
    (192, 7), (194, 7), (196, 7), (198, 7), (200, 7), (202, 7), (204, 7), (206, 7),
    (208, 7), (210, 7), (212, 7), (214, 7), (216, 7), (218, 7), (220, 7), (222, 7),
    (224, 7), (226, 7), (228, 7), (230, 7), (232, 7), (234, 7), (236, 7), (238, 7),
    (240, 7), (242, 7), (244, 7), (246, 7), (248, 7), (250, 7), (252, 7), (254, 7),
    (0, 8), (1, 8), (2, 8), (3, 8), (4, 8), (5, 8), (6, 8), (7, 8),
    (8, 8), (9, 8), (10, 8), (11, 8), (12, 8), (13, 8), (14, 8), (15, 8),
    (16, 8), (17, 8), (18, 8), (19, 8), (20, 8), (21, 8), (22, 8), (23, 8),
    (24, 8), (25, 8), (26, 8), (27, 8), (28, 8), (29, 8), (30, 8), (31, 8),
    (32, 8), (33, 8), (34, 8), (35, 8), (36, 8), (37, 8), (38, 8), (39, 8),
    (40, 8), (41, 8), (42, 8), (43, 8), (44, 8), (45, 8), (46, 8), (47, 8),
    (48, 8), (49, 8), (50, 8), (51, 8), (52, 8), (53, 8), (54, 8), (55, 8),
    (56, 8), (57, 8), (58, 8), (59, 8), (60, 8), (61, 8), (62, 8), (63, 8),
    (64, 8), (65, 8), (66, 8), (67, 8), (68, 8), (69, 8), (70, 8), (71, 8),
    (72, 8), (73, 8), (74, 8), (75, 8), (76, 8), (77, 8), (78, 8), (79, 8),
    (80, 8), (81, 8), (82, 8), (83, 8), (84, 8), (85, 8), (86, 8), (87, 8),
    (88, 8), (89, 8), (90, 8), (91, 8), (92, 8), (93, 8), (94, 8), (95, 8),
    (96, 8), (97, 8), (98, 8), (99, 8), (100, 8), (101, 8), (102, 8), (103, 8),
    (104, 8), (105, 8), (106, 8), (107, 8), (108, 8), (109, 8), (110, 8), (111, 8),
    (112, 8), (113, 8), (114, 8), (115, 8), (116, 8), (117, 8), (118, 8), (119, 8),
    (120, 8), (121, 8), (122, 8), (123, 8), (124, 8), (125, 8), (126, 8), (127, 8),
    (128, 8), (129, 8), (130, 8), (131, 8), (132, 8), (133, 8), (134, 8), (135, 8),
    (136, 8), (137, 8), (138, 8), (139, 8), (140, 8), (141, 8), (142, 8), (143, 8),
    (144, 8), (145, 8), (146, 8), (147, 8), (148, 8), (149, 8), (150, 8), (151, 8),
    (152, 8), (153, 8), (154, 8), (155, 8), (156, 8), (157, 8), (158, 8), (159, 8),
    (160, 8), (161, 8), (162, 8), (163, 8), (164, 8), (165, 8), (166, 8), (167, 8),
    (168, 8), (169, 8), (170, 8), (171, 8), (172, 8), (173, 8), (174, 8), (175, 8),
    (176, 8), (177, 8), (178, 8), (179, 8), (180, 8), (181, 8), (182, 8), (183, 8),
    (184, 8), (185, 8), (186, 8), (187, 8), (188, 8), (189, 8), (190, 8), (191, 8),
    (192, 8), (193, 8), (194, 8), (195, 8), (196, 8), (197, 8), (198, 8), (199, 8),
    (200, 8), (201, 8), (202, 8), (203, 8), (204, 8), (205, 8), (206, 8), (207, 8),
    (208, 8), (209, 8), (210, 8), (211, 8), (212, 8), (213, 8), (214, 8), (215, 8),
    (216, 8), (217, 8), (218, 8), (219, 8), (220, 8), (221, 8), (222, 8), (223, 8),
    (224, 8), (225, 8), (226, 8), (227, 8), (228, 8), (229, 8), (230, 8), (231, 8),
    (232, 8), (233, 8), (234, 8), (235, 8), (236, 8), (237, 8), (238, 8), (239, 8),
    (240, 8), (241, 8), (242, 8), (243, 8), (244, 8), (245, 8), (246, 8), (247, 8),
    (248, 8), (249, 8), (250, 8), (251, 8), (252, 8), (253, 8), (254, 8), (255, 8)
  ]"

definition baseIndexToPrefix :: "nat \<Rightarrow> (octet \<times> int) option" where
  "baseIndexToPrefix baseIdx =
     (if baseIdx < length baseIdx2Pfx then Some (baseIdx2Pfx ! baseIdx) else None)"

definition lowerUpperBound :: "nat \<Rightarrow> (nat \<times> nat) option" where
  "lowerUpperBound idx = do {
     (octet, bits) \<leftarrow> baseIndexToPrefix idx;
     m \<leftarrow> index hostMasks bits;
     Some (octetToBaseIndex octet, octetToBaseIndex (octet OR m))
   }"

text \<open>
  Modelled from the spec: \<open>lastHostIndexOfPrefix\<close> is called by \<open>overlapsPrefix\<close> but
  its declaration is not part of the sources.  Section 3: the covered host indices of
  a prefix \<open>(octet, len)\<close> end at \<open>base(octet | hostMask(len), 8)\<close>, where
  \<open>hostMask(len)\<close> is \<open>0xFF >> len\<close> (the table \<open>hostMasks\<close>).
\<close>

definition lastHostIndexOfPrefix :: "octet \<Rightarrow> int \<Rightarrow> nat option" where
  "lastHostIndexOfPrefix octet bits = do {
     m \<leftarrow> index hostMasks bits;
     Some (octetToBaseIndex (octet OR m))
   }"

section \<open>The stride node (node.go)\<close>

text \<open>
  A node owns two bit sets and two popcount-compressed slices.  The child pointers are
  never nil in a slice, so a child is the node value itself; a write through a child
  pointer is modelled by storing the changed child back into its slot.
\<close>

datatype 'v node = Node
  (prefixesBitset: bitset)
  (childrenBitset: bitset)
  (prefixes: "'v list")
  (children: "'v node list")

definition newNode :: "'v node" where
  "newNode = Node New New [] []"

definition isEmpty :: "'v node \<Rightarrow> bool" where
  "isEmpty n = (length (prefixes n) = 0 \<and> length (children n) = 0)"

subsection \<open>Prefixes\<close>

definition prefixRank :: "'v node \<Rightarrow> nat \<Rightarrow> int" where
  "prefixRank n baseIdx = int (Rank (prefixesBitset n) baseIdx) - 1"

definition insertIdx :: "'v node \<Rightarrow> nat \<Rightarrow> 'v \<Rightarrow> 'v node option" where
  "insertIdx n baseIdx val =
     (if Test (prefixesBitset n) baseIdx then do {
        ps \<leftarrow> assign (prefixes n) (prefixRank n baseIdx) val;
        Some (Node (prefixesBitset n) (childrenBitset n) ps (children n))
      } else do {
        let n1 = Node (Set (prefixesBitset n) baseIdx) (childrenBitset n) (prefixes n) (children n);
        ps \<leftarrow> slices_Insert (prefixes n1) (prefixRank n1 baseIdx) val;
        Some (Node (prefixesBitset n1) (childrenBitset n1) ps (children n1))
      })"

definition insertPrefix :: "'v node \<Rightarrow> octet \<Rightarrow> int \<Rightarrow> 'v \<Rightarrow> 'v node option" where
  "insertPrefix n octet prefixLen val = do {
     baseIdx \<leftarrow> prefixToBaseIndex octet prefixLen;
     insertIdx n baseIdx val
   }"

text \<open>The result is the node after the call and the returned \<open>wasPresent\<close>.\<close>

definition deletePrefix :: "'v node \<Rightarrow> octet \<Rightarrow> int \<Rightarrow> ('v node \<times> bool) option" where
  "deletePrefix n octet prefixLen = do {
     baseIdx \<leftarrow> prefixToBaseIndex octet prefixLen;
     if \<not> Test (prefixesBitset n) baseIdx then Some (n, False)
     else do {
       let rnk = prefixRank n baseIdx;
       ps \<leftarrow> slices_Delete (prefixes n) rnk (rnk + 1);
       Some (Node (Compact (Clear (prefixesBitset n) baseIdx)) (childrenBitset n) ps (children n), True)
     }
   }"

text \<open>The callback \<open>cb\<close> is a pure function; the zero value of \<open>V\<close> is \<open>0\<close>.\<close>

definition updatePrefix ::
  "'v::zero node \<Rightarrow> octet \<Rightarrow> int \<Rightarrow> ('v \<Rightarrow> bool \<Rightarrow> 'v) \<Rightarrow> ('v node \<times> 'v) option" where
  "updatePrefix n octet prefixLen cb = do {
     baseIdx \<leftarrow> prefixToBaseIndex octet prefixLen;
     let ok = Test (prefixesBitset n) baseIdx;
     (rnk, val) \<leftarrow> (if ok then do {
                       v \<leftarrow> index (prefixes n) (prefixRank n baseIdx);
                       Some (prefixRank n baseIdx, v)
                     } else Some (0, 0));
     let val = cb val ok;
     if ok then do {
       ps \<leftarrow> assign (prefixes n) rnk val;
       Some (Node (prefixesBitset n) (childrenBitset n) ps (children n), val)
     } else do {
       let n1 = Node (Set (prefixesBitset n) baseIdx) (childrenBitset n) (prefixes n) (children n);
       let rnk = prefixRank n1 baseIdx;
       ps \<leftarrow> slices_Insert (prefixes n1) rnk val;
       Some (Node (prefixesBitset n1) (childrenBitset n1) ps (children n1), val)
     }
   }"

text \<open>The backtracking loop of \<open>lpmByIndex\<close>; \<open>idx >>= 1\<close> halves the index.\<close>

function lpmByIndex :: "'v::zero node \<Rightarrow> nat \<Rightarrow> (nat \<times> 'v \<times> bool) option" where
  "lpmByIndex n idx =
     (if Test (prefixesBitset n) idx then do {
        v \<leftarrow> index (prefixes n) (prefixRank n idx);
        Some (idx, v, True)
      }
      else if idx = 0 then Some (0, 0, False)
      else lpmByIndex n (drop_bit 1 idx))"
  by pat_completeness auto
termination
  by (relation "measure (\<lambda>(n, idx). idx)") (auto simp: drop_bit_eq_div)

declare lpmByIndex.simps [simp del]

definition lpmByOctet :: "'v::zero node \<Rightarrow> octet \<Rightarrow> (nat \<times> 'v \<times> bool) option" where
  "lpmByOctet n octet = lpmByIndex n (octetToBaseIndex octet)"

definition lpmByPrefix :: "'v::zero node \<Rightarrow> octet \<Rightarrow> int \<Rightarrow> (nat \<times> 'v \<times> bool) option" where
  "lpmByPrefix n octet bits = do {
     idx \<leftarrow> prefixToBaseIndex octet bits;
     lpmByIndex n idx
   }"

definition getValByIndex :: "'v::zero node \<Rightarrow> nat \<Rightarrow> ('v \<times> bool) option" where
  "getValByIndex n baseIdx =
     (if Test (prefixesBitset n) baseIdx then do {
        v \<leftarrow> index (prefixes n) (prefixRank n baseIdx);
        Some (v, True)
      } else Some (0, False))"

definition getValByPrefix :: "'v::zero node \<Rightarrow> octet \<Rightarrow> int \<Rightarrow> ('v \<times> bool) option" where
  "getValByPrefix n octet bits = do {
     baseIdx \<leftarrow> prefixToBaseIndex octet bits;
     getValByIndex n baseIdx
   }"

subsection \<open>Children\<close>

definition childRank :: "'v node \<Rightarrow> octet \<Rightarrow> int" where
  "childRank n octet = int (Rank (childrenBitset n) (unat octet)) - 1"

definition insertChild :: "'v node \<Rightarrow> octet \<Rightarrow> 'v node \<Rightarrow> 'v node option" where
  "insertChild n octet child =
     (if Test (childrenBitset n) (unat octet) then do {
        cs \<leftarrow> assign (children n) (childRank n octet) child;
        Some (Node (prefixesBitset n) (childrenBitset n) (prefixes n) cs)
      } else do {
        let n1 = Node (prefixesBitset n) (Set (childrenBitset n) (unat octet)) (prefixes n) (children n);
        cs \<leftarrow> slices_Insert (children n1) (childRank n1 octet) child;
        Some (Node (prefixesBitset n1) (childrenBitset n1) (prefixes n1) cs)
      })"

definition deleteChild :: "'v node \<Rightarrow> octet \<Rightarrow> 'v node option" where
  "deleteChild n octet =
     (if \<not> Test (childrenBitset n) (unat octet) then Some n
      else do {
        let rnk = childRank n octet;
        cs \<leftarrow> slices_Delete (children n) rnk (rnk + 1);
        Some (Node (prefixesBitset n) (Compact (Clear (childrenBitset n) (unat octet))) (prefixes n) cs)
      })"

text \<open>\<open>getChild\<close>: \<open>Some None\<close> is the nil pointer, \<open>None\<close> a panic.\<close>

definition getChild :: "'v node \<Rightarrow> octet \<Rightarrow> 'v node option option" where
  "getChild n octet =
     (if \<not> Test (childrenBitset n) (unat octet) then Some None
      else do {
        c \<leftarrow> index (children n) (childRank n octet);
        Some (Some c)
      })"


subsection \<open>overlapsPrefix\<close>

lemma NextSet_found:
  assumes "NextSet b i = (r, True)"
  shows "r |\<in>| b" "i \<le> r" "\<And>j. j |\<in>| b \<Longrightarrow> i \<le> j \<Longrightarrow> r \<le> j"
proof -
  let ?S = "{j \<in> fset b. i \<le> j}"
  have ne: "?S \<noteq> {}" and r: "r = Min ?S"
    using assms by (auto simp: NextSet_def split: if_splits)
  have fin: "finite ?S" by simp
  have "Min ?S \<in> ?S" using fin ne by (rule Min_in)
  then show "r |\<in>| b" "i \<le> r" using r by auto
  fix j assume "j |\<in>| b" "i \<le> j"
  then have "j \<in> ?S" by simp
  then show "r \<le> j" using r fin by (simp add: Min_le)
qed

lemma NextSet_none:
  assumes "NextSet b i = (r, False)"
  shows "r = 0" "\<And>j. j |\<in>| b \<Longrightarrow> j < i"
proof -
  have e: "{j \<in> fset b. i \<le> j} = {}" and "r = 0"
    using assms by (auto simp: NextSet_def split: if_splits)
  then show "r = 0" by simp
  fix j assume "j |\<in>| b"
  then show "j < i" using e by (auto simp: not_le [symmetric])
qed

text \<open>The bits that a loop over \<open>NextSet\<close> has still to visit.\<close>

definition remaining :: "bitset \<Rightarrow> nat \<Rightarrow> nat" where
  "remaining b i = card {j \<in> fset b. i \<le> j}"

lemma remaining_NextSet:
  assumes "NextSet b i = (r, True)"
  shows "remaining b (Suc r) < remaining b i"
proof -
  have "r \<in> {j \<in> fset b. i \<le> j}" "r \<notin> {j \<in> fset b. Suc r \<le> j}"
    using NextSet_found(1,2) [OF assms] by auto
  moreover have "{j \<in> fset b. Suc r \<le> j} \<subseteq> {j \<in> fset b. i \<le> j}"
    using NextSet_found(2) [OF assms] by auto
  ultimately have "{j \<in> fset b. Suc r \<le> j} \<subset> {j \<in> fset b. i \<le> j}"
    by blast
  then show ?thesis unfolding remaining_def by (intro psubset_card_mono) auto
qed

function overlapsRoutes :: "bitset \<Rightarrow> nat \<Rightarrow> nat \<Rightarrow> nat \<Rightarrow> bool option" where
  "overlapsRoutes b pfxLowerBound pfxUpperBound routeIdx =
     (case NextSet b routeIdx of
        (r, ok) \<Rightarrow>
          if \<not> ok then Some False
          else do {
            (routeLowerBound, routeUpperBound) \<leftarrow> lowerUpperBound r;
            if routeLowerBound \<ge> pfxLowerBound \<and> routeUpperBound \<le> pfxUpperBound
            then Some True
            else overlapsRoutes b pfxLowerBound pfxUpperBound (r + 1)
          })"
  by pat_completeness auto
termination
  by (relation "measure (\<lambda>(b, lo, hi, i). remaining b i)") (auto simp: remaining_NextSet)

declare overlapsRoutes.simps [simp del]

function overlapsChildren :: "bitset \<Rightarrow> nat \<Rightarrow> nat \<Rightarrow> nat \<Rightarrow> bool" where
  "overlapsChildren b pfxLowerBound pfxUpperBound childOctet =
     (case NextSet b childOctet of
        (c, ok) \<Rightarrow>
          if \<not> ok then False
          else if c + firstHostIndex \<ge> pfxLowerBound \<and> c + firstHostIndex \<le> pfxUpperBound
          then True
          else overlapsChildren b pfxLowerBound pfxUpperBound (c + 1))"
  by pat_completeness auto
termination
  by (relation "measure (\<lambda>(b, lo, hi, i). remaining b i)") (auto simp: remaining_NextSet)

declare overlapsChildren.simps [simp del]

definition overlapsPrefix :: "'v::zero node \<Rightarrow> octet \<Rightarrow> int \<Rightarrow> bool option" where
  "overlapsPrefix n octet pfxLen = do {
     pfxIdx \<leftarrow> prefixToBaseIndex octet pfxLen;
     (_, _, ok) \<leftarrow> lpmByIndex n pfxIdx;
     if ok then Some True
     else do {
       let pfxLowerBound = unat octet + firstHostIndex;
       pfxUpperBound \<leftarrow> lastHostIndexOfPrefix octet pfxLen;
       r \<leftarrow> overlapsRoutes (prefixesBitset n) pfxLowerBound pfxUpperBound (push_bit 1 pfxIdx);
       if r then Some True
       else Some (overlapsChildren (childrenBitset n) pfxLowerBound pfxUpperBound (unat octet))
     }
   }"




subsection \<open>overlapsRec\<close>

text \<open>
  The fixed-size arrays \<open>[maxNodePrefixes]bool\<close> and \<open>[maxNodeChildren]bool\<close> are
  functions from the index; an access outside the array size panics.

  The inner loop \<open>for i := lowerBound; i <= upperBound; i++\<close> of the zig-zag returns
  at once with a hit when the other node's allotment has \<open>i\<close>, and marks \<open>i\<close> in this
  node's allotment otherwise.  The result is the hit flag and the allotment.
\<close>

function allotRange ::
  "(nat \<Rightarrow> bool) \<Rightarrow> (nat \<Rightarrow> bool) \<Rightarrow> nat \<Rightarrow> nat \<Rightarrow> (bool \<times> (nat \<Rightarrow> bool)) option" where
  "allotRange other mine i upperBound =
     (if i \<le> upperBound then
        (if i < maxNodePrefixes then
           (if other i then Some (True, mine)
            else allotRange other (mine(i := True)) (i + 1) upperBound)
         else None)
      else Some (False, mine))"
  by pat_completeness auto
termination
  by (relation "measure (\<lambda>(other, mine, i, u). Suc u - i)") auto

declare allotRange.simps [simp del]

text \<open>
  One half of a round of the first zig-zag loop (the two halves are the same code with
  the two nodes exchanged): when this side is not exhausted, take its next prefix and
  allot its host routes.  The result is the hit flag, this side's allotment, its
  \<open>ok\<close> flag and its next index.
\<close>

definition routesStep ::
  "bitset \<Rightarrow> (nat \<Rightarrow> bool) \<Rightarrow> (nat \<Rightarrow> bool) \<Rightarrow> bool \<Rightarrow> nat \<Rightarrow>
   (bool \<times> (nat \<Rightarrow> bool) \<times> bool \<times> nat) option" where
  "routesStep b other mine ok idx =
     (if ok then
        (case NextSet b idx of
           (i, found) \<Rightarrow>
             if found then do {
               (lowerBound, upperBound) \<leftarrow> lowerUpperBound i;
               (hit, mine') \<leftarrow> allotRange other mine lowerBound upperBound;
               Some (hit, mine', True, i + 1)
             } else Some (False, mine, False, i))
      else Some (False, mine, ok, idx))"

text \<open>What a zig-zag side has still to do: the measure of the zig-zag loops.\<close>

definition pending :: "bitset \<Rightarrow> bool \<Rightarrow> nat \<Rightarrow> nat" where
  "pending b ok idx = (if ok then Suc (remaining b idx) else 0)"

lemma routesStep_elim:
  assumes "routesStep b other mine ok idx = Some (hit, mine', ok', idx')"
  shows "(\<not> ok \<and> \<not> ok' \<and> \<not> hit \<and> mine' = mine \<and> idx' = idx) \<or>
         (ok \<and> \<not> ok' \<and> \<not> hit \<and> mine' = mine \<and> NextSet b idx = (idx', False)) \<or>
         (ok \<and> ok' \<and> (\<exists>i lo hi. NextSet b idx = (i, True) \<and> idx' = i + 1 \<and>
             lowerUpperBound i = Some (lo, hi) \<and> allotRange other mine lo hi = Some (hit, mine')))"
proof (cases ok)
  case False
  then show ?thesis using assms by (simp add: routesStep_def)
next
  case True
  obtain i found where ns: "NextSet b idx = (i, found)" by (cases "NextSet b idx")
  show ?thesis
  proof (cases found)
    case False
    then show ?thesis using assms True ns by (simp add: routesStep_def)
  next
    case f: True
    from assms True ns f obtain lo hi where lu: "lowerUpperBound i = Some (lo, hi)"
      by (cases "lowerUpperBound i") (auto simp: routesStep_def)
    from assms True ns f lu obtain h m where ar: "allotRange other mine lo hi = Some (h, m)"
      by (cases "allotRange other mine lo hi") (auto simp: routesStep_def)
    from assms True ns f lu ar have "hit = h" "mine' = m" "ok'" "idx' = i + 1"
      by (simp_all add: routesStep_def)
    then show ?thesis using True ns f lu ar by simp
  qed
qed

lemma routesStep_pending:
  assumes "routesStep b other mine ok idx = Some (hit, mine', ok', idx')"
  shows "pending b ok' idx' \<le> pending b ok idx"
    and "ok \<Longrightarrow> pending b ok' idx' < pending b ok idx"
    and "ok' \<Longrightarrow> ok"
proof -
  note e = routesStep_elim [OF assms]
  show 3: "ok' \<Longrightarrow> ok" using e by blast
  show 2: "pending b ok' idx' < pending b ok idx" if "ok"
  proof (cases ok')
    case False
    then show ?thesis using that by (simp add: pending_def)
  next
    case True
    then obtain i where "NextSet b idx = (i, True)" "idx' = i + 1" using e by blast
    then show ?thesis using remaining_NextSet [of b idx i] that True by (simp add: pending_def)
  qed
  show "pending b ok' idx' \<le> pending b ok idx"
  proof (cases ok)
    case True
    then show ?thesis using 2 by simp
  next
    case False
    then show ?thesis using e by (auto simp: pending_def)
  qed
qed

lemma pending_sum_less:
  assumes "pending nb nOk' nIdx' \<le> pending nb nOk nIdx"
    "nOk \<Longrightarrow> pending nb nOk' nIdx' < pending nb nOk nIdx" "nOk' \<Longrightarrow> nOk"
    "pending ob oOk' oIdx' \<le> pending ob oOk oIdx"
    "oOk \<Longrightarrow> pending ob oOk' oIdx' < pending ob oOk oIdx" "oOk' \<Longrightarrow> oOk"
    "nOk' \<or> oOk'"
  shows "pending nb nOk' nIdx' + pending ob oOk' oIdx' < pending nb nOk nIdx + pending ob oOk oIdx"
proof (cases nOk)
  case True
  then show ?thesis using assms(2,4) by linarith
next
  case False
  then have oOk using assms(3,6,7) by blast
  then show ?thesis using assms(1,5) by linarith
qed

function zigzagRoutes ::
  "bitset \<Rightarrow> bitset \<Rightarrow> (nat \<Rightarrow> bool) \<Rightarrow> (nat \<Rightarrow> bool) \<Rightarrow> bool \<Rightarrow> bool \<Rightarrow> nat \<Rightarrow> nat \<Rightarrow>
   (bool \<times> (nat \<Rightarrow> bool) \<times> (nat \<Rightarrow> bool)) option" where
  "zigzagRoutes nb ob nAllotIndex oAllotIndex nOk oOk nIdx oIdx = do {
     (nHit, nAllotIndex', nOk', nIdx') \<leftarrow> routesStep nb oAllotIndex nAllotIndex nOk nIdx;
     if nHit then Some (True, nAllotIndex', oAllotIndex)
     else do {
       (oHit, oAllotIndex', oOk', oIdx') \<leftarrow> routesStep ob nAllotIndex' oAllotIndex oOk oIdx;
       if oHit then Some (True, nAllotIndex', oAllotIndex')
       else if \<not> nOk' \<and> \<not> oOk' then Some (False, nAllotIndex', oAllotIndex')
       else zigzagRoutes nb ob nAllotIndex' oAllotIndex' nOk' oOk' nIdx' oIdx'
     }
   }"
  by pat_completeness auto
termination
proof (relation "measure (\<lambda>(nb, ob, na, oa, nOk, oOk, nIdx, oIdx).
                    pending nb nOk nIdx + pending ob oOk oIdx)", goal_cases)
  case 1
  show ?case by simp
next
  case (2 nb ob na oa nOk oOk nIdx oIdx a x y xa ya xb yb aa xc yc xd yd xe ye)
  have s1: "routesStep nb oa na nOk nIdx = Some (x, xa, xb, yb)"
    using 2(1,2,3,4) by simp
  have s2: "routesStep ob xa oa oOk oIdx = Some (xc, xd, xe, ye)"
    using 2(6,7,8,9) by simp
  have "xb \<or> xe" using 2(11) by blast
  then have "pending nb xb yb + pending ob xe ye < pending nb nOk nIdx + pending ob oOk oIdx"
    using routesStep_pending [OF s1] routesStep_pending [OF s2] by (intro pending_sum_less)
  then show ?case by simp
qed

declare zigzagRoutes.simps [simp del]

text \<open>The full run after the zig-zag: a host index allotted by both nodes.\<close>

definition fullRun :: "(nat \<Rightarrow> bool) \<Rightarrow> (nat \<Rightarrow> bool) \<Rightarrow> bool" where
  "fullRun nAllotIndex oAllotIndex =
     list_ex (\<lambda>i. nAllotIndex i \<and> oAllotIndex i) [firstHostIndex ..< Suc lastHostIndex]"

text \<open>
  One half of a round of the second zig-zag loop: the next child octet of this side is
  a hit when the other side's allotment has its host index, and is recorded otherwise.
\<close>

definition octetsStep ::
  "bitset \<Rightarrow> (nat \<Rightarrow> bool) \<Rightarrow> (nat \<Rightarrow> bool) \<Rightarrow> bool \<Rightarrow> nat \<Rightarrow>
   (bool \<times> (nat \<Rightarrow> bool) \<times> bool \<times> nat) option" where
  "octetsStep b otherAllotIndex octets ok octet =
     (if ok then
        (case NextSet b octet of
           (c, found) \<Rightarrow>
             if found then
               (if c + firstHostIndex < maxNodePrefixes then
                  (if otherAllotIndex (c + firstHostIndex) then Some (True, octets, True, c)
                   else if c < maxNodeChildren then Some (False, octets(c := True), True, c + 1)
                   else None)
                else None)
             else Some (False, octets, False, c))
      else Some (False, octets, ok, octet))"

lemma octetsStep_elim:
  assumes "octetsStep b other octets ok octet = Some (hit, octets', ok', octet')"
  shows "(\<not> ok \<and> \<not> ok' \<and> \<not> hit \<and> octets' = octets \<and> octet' = octet) \<or>
         (ok \<and> \<not> ok' \<and> \<not> hit \<and> octets' = octets \<and> NextSet b octet = (octet', False)) \<or>
         (ok \<and> ok' \<and> hit \<and> (\<exists>c. NextSet b octet = (c, True) \<and> c < maxNodeChildren \<and>
             other (c + firstHostIndex))) \<or>
         (ok \<and> ok' \<and> \<not> hit \<and> (\<exists>c. NextSet b octet = (c, True) \<and> c < maxNodeChildren \<and>
             \<not> other (c + firstHostIndex) \<and> octets' = octets(c := True) \<and> octet' = c + 1))"
proof (cases ok)
  case False
  then show ?thesis using assms by (simp add: octetsStep_def)
next
  case True
  obtain c found where ns: "NextSet b octet = (c, found)" by (cases "NextSet b octet")
  show ?thesis
  proof (cases found)
    case False
    then show ?thesis using assms True ns by (simp add: octetsStep_def)
  next
    case f: True
    then show ?thesis
      using assms True ns
      by (simp add: octetsStep_def firstHostIndex_def maxNodePrefixes_def maxNodeChildren_def
          split: if_splits)
  qed
qed

lemma octetsStep_pending:
  assumes "octetsStep b other octets ok octet = Some (False, octets', ok', octet')"
  shows "pending b ok' octet' \<le> pending b ok octet"
    and "ok \<Longrightarrow> pending b ok' octet' < pending b ok octet"
    and "ok' \<Longrightarrow> ok"
proof -
  note e = octetsStep_elim [OF assms]
  show 3: "ok' \<Longrightarrow> ok" using e by blast
  show 2: "pending b ok' octet' < pending b ok octet" if "ok"
  proof (cases ok')
    case False
    then show ?thesis using that by (simp add: pending_def)
  next
    case True
    then obtain c where "NextSet b octet = (c, True)" "octet' = c + 1" using e by blast
    then show ?thesis using remaining_NextSet [of b octet c] that True by (simp add: pending_def)
  qed
  show "pending b ok' octet' \<le> pending b ok octet"
  proof (cases ok)
    case True
    then show ?thesis using 2 by simp
  next
    case False
    then show ?thesis using e by (auto simp: pending_def)
  qed
qed

function zigzagChildren ::
  "bitset \<Rightarrow> bitset \<Rightarrow> (nat \<Rightarrow> bool) \<Rightarrow> (nat \<Rightarrow> bool) \<Rightarrow> (nat \<Rightarrow> bool) \<Rightarrow> (nat \<Rightarrow> bool) \<Rightarrow>
   bool \<Rightarrow> bool \<Rightarrow> nat \<Rightarrow> nat \<Rightarrow> (bool \<times> (nat \<Rightarrow> bool) \<times> (nat \<Rightarrow> bool)) option" where
  "zigzagChildren nb ob nAllotIndex oAllotIndex nOctets oOctets nOk oOk nOctet oOctet = do {
     (nHit, nOctets', nOk', nOctet') \<leftarrow> octetsStep nb oAllotIndex nOctets nOk nOctet;
     if nHit then Some (True, nOctets', oOctets)
     else do {
       (oHit, oOctets', oOk', oOctet') \<leftarrow> octetsStep ob nAllotIndex oOctets oOk oOctet;
       if oHit then Some (True, nOctets', oOctets')
       else if \<not> nOk' \<and> \<not> oOk' then Some (False, nOctets', oOctets')
       else zigzagChildren nb ob nAllotIndex oAllotIndex nOctets' oOctets' nOk' oOk' nOctet' oOctet'
     }
   }"
  by pat_completeness auto
termination
proof (relation "measure (\<lambda>(nb, ob, na, oa, no, oo, nOk, oOk, nOctet, oOctet).
                    pending nb nOk nOctet + pending ob oOk oOctet)", goal_cases)
  case 1
  show ?case by simp
next
  case (2 nb ob na oa no oo nOk oOk nOctet oOctet a x y xa ya xb yb aa xc yc xd yd xe ye)
  have s1: "octetsStep nb oa no nOk nOctet = Some (False, xa, xb, yb)"
    using 2(1,2,3,4,5) by simp
  have s2: "octetsStep ob na oo oOk oOctet = Some (False, xd, xe, ye)"
    using 2(6,7,8,9,10) by simp
  have "xb \<or> xe" using 2(11) by blast
  then have "pending nb xb yb + pending ob xe ye < pending nb nOk nOctet + pending ob oOk oOctet"
    using octetsStep_pending [OF s1] octetsStep_pending [OF s2] by (intro pending_sum_less)
  then show ?case by simp
qed

declare zigzagChildren.simps [simp del]

lemma size_child: "c \<in> set (children n) \<Longrightarrow> size c < size n"
  by (cases n) (auto simp: less_Suc_eq_le dest: size_list_estimation' [where f = size and y = "size c", OF _ order_refl])

lemma getChild_size: "getChild n oc = Some (Some c) \<Longrightarrow> size c < size n"
  by (rule size_child) (auto simp: getChild_def index_def split: if_splits bind_splits)

function overlapsRec :: "'v node \<Rightarrow> 'v node \<Rightarrow> bool option"
  and sameChildren :: "'v node \<Rightarrow> 'v node \<Rightarrow> (nat \<Rightarrow> bool) \<Rightarrow> (nat \<Rightarrow> bool) \<Rightarrow> nat \<Rightarrow> bool option" where
  "overlapsRec n other = do {
     (hit, nAllotIndex, oAllotIndex) \<leftarrow>
        zigzagRoutes (prefixesBitset n) (prefixesBitset other) (\<lambda>i. False) (\<lambda>i. False)
          (length (prefixes n) > 0) (length (prefixes other) > 0) 0 0;
     if hit then Some True
     else if length (prefixes n) > 0 \<and> length (prefixes other) > 0 \<and> fullRun nAllotIndex oAllotIndex
     then Some True
     else do {
       (hit, nOctets, oOctets) \<leftarrow>
          zigzagChildren (childrenBitset n) (childrenBitset other) nAllotIndex oAllotIndex
            (\<lambda>i. False) (\<lambda>i. False) (length (children n) > 0) (length (children other) > 0) 0 0;
       if hit then Some True
       else if length (children n) > 0 \<and> length (children other) > 0
       then sameChildren n other nOctets oOctets 0
       else Some False
     }
   }"
| "sameChildren n other nOctets oOctets i =
     (if i < maxNodeChildren then
        (if nOctets i \<and> oOctets i then do {
           nc \<leftarrow> getChild n (of_nat i);
           oc \<leftarrow> getChild other (of_nat i);
           case nc of None \<Rightarrow> None
           | Some nc' \<Rightarrow>
               (case oc of None \<Rightarrow> None
                | Some oc' \<Rightarrow> do {
                    r \<leftarrow> overlapsRec nc' oc';
                    if r then Some True else sameChildren n other nOctets oOctets (i + 1)
                  })
         }
         else sameChildren n other nOctets oOctets (i + 1))
      else Some False)"
  by pat_completeness auto
termination
  apply (relation "inv_image (less_than <*lex*> less_than)
           (\<lambda>x. case x of Inl (n, m) \<Rightarrow> (size n, Suc maxNodeChildren)
                          | Inr (n, m, a, b, i) \<Rightarrow> (size n, maxNodeChildren - i))")
  apply (auto simp: getChild_size)
  done

declare overlapsRec.simps [simp del] sameChildren.simps [simp del]

subsection \<open>cloneRec and unionRec\<close>

fun cloneRec :: "'v node \<Rightarrow> 'v node" where
  "cloneRec (Node pb cb ps cs) =
     (if isEmpty (Node pb cb ps cs) then newNode
      else Node (Clone pb) (Clone cb) ps (map cloneRec cs))"

text \<open>The first loop of \<open>unionRec\<close>: for all prefixes of the other node.\<close>

function unionPrefixes :: "'v::zero node \<Rightarrow> 'v node \<Rightarrow> nat \<Rightarrow> 'v node option" where
  "unionPrefixes n other oIdx =
     (case NextSet (prefixesBitset other) oIdx of
        (i, oOk) \<Rightarrow>
          if \<not> oOk then Some n
          else do {
            (oVal, _) \<leftarrow> getValByIndex other i;
            n' \<leftarrow> insertIdx n i oVal;
            unionPrefixes n' other (i + 1)
          })"
  by pat_completeness auto
termination
  by (relation "measure (\<lambda>(n, other, i). remaining (prefixesBitset other) i)")
    (auto simp: remaining_NextSet)

declare unionPrefixes.simps [simp del]

text \<open>
  \<open>unionRec\<close> and its second loop, for all children of the other node.  \<open>byte(oOctet)\<close>
  truncates to 8 bits.  A nil \<open>oNode\<close> panics in \<open>cloneRec\<close> or in the recursive call.
  The recursive call changes the child of \<open>n\<close> in place, through the pointer in its
  slot; here the changed child is stored back into that slot.
\<close>

function unionRec :: "'v::zero node \<Rightarrow> 'v node \<Rightarrow> 'v node option"
  and unionChildren :: "'v node \<Rightarrow> 'v node \<Rightarrow> nat \<Rightarrow> 'v node option" where
  "unionRec n other = do {
     n1 \<leftarrow> unionPrefixes n other 0;
     unionChildren n1 other 0
   }"
| "unionChildren n other oOctet =
     (case NextSet (childrenBitset other) oOctet of
        (c, oOk) \<Rightarrow>
          if \<not> oOk then Some n
          else do {
            oNode \<leftarrow> getChild other (of_nat c);
            nNode \<leftarrow> getChild n (of_nat c);
            n' \<leftarrow> (case nNode of
                     None \<Rightarrow>
                       (case oNode of None \<Rightarrow> None
                        | Some oNode' \<Rightarrow> insertChild n (of_nat c) (cloneRec oNode'))
                   | Some nNode' \<Rightarrow>
                       (case oNode of None \<Rightarrow> None
                        | Some oNode' \<Rightarrow> do {
                            nNode'' \<leftarrow> unionRec nNode' oNode';
                            Some (Node (prefixesBitset n) (childrenBitset n) (prefixes n)
                                    ((children n)[nat (childRank n (of_nat c)) := nNode'']))
                          }));
            unionChildren n' other (c + 1)
          })"
  by pat_completeness auto
termination
  apply (relation "inv_image (less_than <*lex*> less_than)
           (\<lambda>x. case x of Inl (n, m) \<Rightarrow> (size m, Suc (remaining (childrenBitset m) 0))
                          | Inr (n, m, i) \<Rightarrow> (size m, remaining (childrenBitset m) i))")
  apply (auto simp: getChild_size remaining_NextSet)
  done

declare unionRec.simps [simp del] unionChildren.simps [simp del]

section \<open>Invariants\<close>

text \<open>
  The popcount correspondence of one node: each slice has as many slots as its bit set
  has bits.
\<close>

definition popcount_ok :: "'v node \<Rightarrow> bool" where
  "popcount_ok n = (length (prefixes n) = Count (prefixesBitset n) \<and>
                    length (children n) = Count (childrenBitset n))"

text \<open>The slot of index \<open>i\<close>: the number of set bits below \<open>i\<close>.\<close>

definition slot :: "bitset \<Rightarrow> nat \<Rightarrow> nat" where
  "slot b i = card {j \<in> fset b. j < i}"

text \<open>
  The content of a popcount-compressed slice: the value that belongs to index \<open>i\<close> is
  the one in slot \<open>slot b i\<close>, when bit \<open>i\<close> is set.
\<close>

definition valAt :: "bitset \<Rightarrow> 'a list \<Rightarrow> nat \<Rightarrow> 'a option" where
  "valAt b xs i = (if Test b i then Some (xs ! slot b i) else None)"

text \<open>The prefixes and the children of a node, by base index and by octet.\<close>

definition prefixAt :: "'v node \<Rightarrow> nat \<Rightarrow> 'v option" where
  "prefixAt n = valAt (prefixesBitset n) (prefixes n)"

definition childAt :: "'v node \<Rightarrow> nat \<Rightarrow> 'v node option" where
  "childAt n = valAt (childrenBitset n) (children n)"

text \<open>
  The invariant of a whole (sub)trie: every node has the popcount correspondence, and
  child octets are bytes.
\<close>

fun node_inv :: "'v node \<Rightarrow> bool" where
  "node_inv (Node pb cb ps cs) =
     (length ps = Count pb \<and> length cs = Count cb \<and> (\<forall>c. Test cb c \<longrightarrow> c < 256) \<and>
      (\<forall>ch \<in> set cs. node_inv ch))"

text \<open>
  What \<open>unionRec\<close> does to one child slot, and the effect of \<open>unionRec\<close> and of its
  second loop on one node.
\<close>

definition mergeChild :: "'v::zero node option \<Rightarrow> 'v node option \<Rightarrow> 'v node option" where
  "mergeChild nc mc =
     (case mc of None \<Rightarrow> nc
      | Some mc' \<Rightarrow> (case nc of None \<Rightarrow> Some (cloneRec mc') | Some nc' \<Rightarrow> unionRec nc' mc'))"

definition union_post :: "'v::zero node \<Rightarrow> 'v node \<Rightarrow> 'v node \<Rightarrow> bool" where
  "union_post n m n' =
     (node_inv n' \<and> prefixAt n' = prefixAt n ++ prefixAt m \<and>
      childAt n' = (\<lambda>c. mergeChild (childAt n c) (childAt m c)))"

definition children_post :: "'v::zero node \<Rightarrow> 'v node \<Rightarrow> nat \<Rightarrow> 'v node \<Rightarrow> bool" where
  "children_post n m k n' =
     (node_inv n' \<and> prefixAt n' = prefixAt n \<and>
      childAt n' = (\<lambda>c. if k \<le> c then mergeChild (childAt n c) (childAt m c) else childAt n c))"

text \<open>
  The nodes that the node operations build from a fresh node.  \<open>reach n pm cm\<close> also
  records what has been stored: \<open>pm\<close> maps a base index to the value last stored for
  it, \<open>cm\<close> maps an octet to the child last stored for it.
\<close>

inductive reach :: "'v::zero node \<Rightarrow> (nat \<rightharpoonup> 'v) \<Rightarrow> (nat \<rightharpoonup> 'v node) \<Rightarrow> bool" where
  fresh: "reach newNode Map.empty Map.empty"
| insertIdx: "reach n pm cm \<Longrightarrow> insertIdx n i v = Some n' \<Longrightarrow> reach n' (pm(i \<mapsto> v)) cm"
| insertPrefix:
    "reach n pm cm \<Longrightarrow> prefixToBaseIndex oc l = Some i \<Longrightarrow> insertPrefix n oc l v = Some n' \<Longrightarrow>
     reach n' (pm(i \<mapsto> v)) cm"
| deletePrefix:
    "reach n pm cm \<Longrightarrow> prefixToBaseIndex oc l = Some i \<Longrightarrow> deletePrefix n oc l = Some (n', r) \<Longrightarrow>
     reach n' (pm(i := None)) cm"
| updatePrefix:
    "reach n pm cm \<Longrightarrow> prefixToBaseIndex oc l = Some i \<Longrightarrow> updatePrefix n oc l cb = Some (n', v) \<Longrightarrow>
     reach n' (pm(i \<mapsto> v)) cm"
| insertChild:
    "reach n pm cm \<Longrightarrow> reach c pm' cm' \<Longrightarrow> insertChild n oc c = Some n' \<Longrightarrow>
     reach n' pm (cm(unat oc \<mapsto> c))"
| deleteChild:
    "reach n pm cm \<Longrightarrow> deleteChild n oc = Some n' \<Longrightarrow> reach n' pm (cm(unat oc := None))"
| unionRec:
    "reach n pm cm \<Longrightarrow> reach m pm' cm' \<Longrightarrow> unionRec n m = Some n' \<Longrightarrow>
     reach n' (pm ++ pm') (\<lambda>c. mergeChild (cm c) (cm' c))"
| cloneRec:
    "reach n pm cm \<Longrightarrow> reach (cloneRec n) pm (map_option cloneRec \<circ> cm)"



text \<open>The host routes (base indices 256 to 511) that the prefix with base index \<open>i\<close> covers.\<close>

definition hostRoutes :: "nat \<Rightarrow> nat set" where
  "hostRoutes i = (case lowerUpperBound i of None \<Rightarrow> {} | Some (lo, hi) \<Rightarrow> {lo..hi})"

text \<open>
  The octets that the prefix \<open>octet/len\<close> covers, and the overlap of a node with a
  prefix as the specification words it: some stored prefix or some child of the node
  covers an octet that the supplied prefix covers.
\<close>

definition octetRange :: "octet \<Rightarrow> int \<Rightarrow> nat set" where
  "octetRange oc l = {unat oc .. unat (oc OR hostMasks ! nat l)}"

definition overlapsPrefix_spec :: "'v node \<Rightarrow> octet \<Rightarrow> int \<Rightarrow> bool" where
  "overlapsPrefix_spec n oc l =
     ((\<exists>i oi li. Test (prefixesBitset n) i \<and> baseIndexToPrefix i = Some (oi, li) \<and>
                 octetRange oi li \<inter> octetRange oc l \<noteq> {}) \<or>
      (\<exists>c. Test (childrenBitset n) c \<and> c \<in> octetRange oc l))"

text \<open>
  The loop invariants of \<open>overlapsRec\<close>: the allotment built from the prefixes taken so
  far, the whole allotment of a bit set, and the child octets recorded so far.
\<close>

definition allotted :: "bitset \<Rightarrow> bool \<Rightarrow> nat \<Rightarrow> nat \<Rightarrow> bool" where
  "allotted b ok idx = (\<lambda>h. \<exists>i. Test b i \<and> (ok \<longrightarrow> i < idx) \<and> h \<in> hostRoutes i)"

definition allotment :: "bitset \<Rightarrow> nat \<Rightarrow> bool" where
  "allotment b = (\<lambda>h. \<exists>i. Test b i \<and> h \<in> hostRoutes i)"

definition marked :: "bitset \<Rightarrow> bool \<Rightarrow> nat \<Rightarrow> nat \<Rightarrow> bool" where
  "marked b ok idx = (\<lambda>c. Test b c \<and> (ok \<longrightarrow> c < idx))"

text \<open>
  Base indices of a whole (sub)trie are in \<open>[1, 511]\<close>; and the three ways in which two
  nodes overlap: two routes share a host route, a child octet lies in a route of the
  other node, or the children at a common octet overlap.
\<close>

fun indices_ok :: "'v node \<Rightarrow> bool" where
  "indices_ok (Node pb cb ps cs) = (fset pb \<subseteq> {1..511} \<and> (\<forall>c \<in> set cs. indices_ok c))"

definition routes_meet :: "'v node \<Rightarrow> 'v node \<Rightarrow> bool" where
  "routes_meet n m = (\<exists>h. allotment (prefixesBitset n) h \<and> allotment (prefixesBitset m) h)"

definition child_in_route :: "'v node \<Rightarrow> 'v node \<Rightarrow> bool" where
  "child_in_route n m =
     (\<exists>c. Test (childrenBitset n) c \<and> allotment (prefixesBitset m) (c + firstHostIndex))"

definition children_overlap :: "'v node \<Rightarrow> 'v node \<Rightarrow> nat \<Rightarrow> bool" where
  "children_overlap n m i =
     (\<exists>c nc mc. i \<le> c \<and> childAt n c = Some nc \<and> childAt m c = Some mc \<and>
                 overlapsRec nc mc = Some True)"

text \<open>
  What every entry \<open>(oc, l)\<close> of the table at index \<open>i \<ge> 1\<close> satisfies: \<open>l\<close> is the
  level of \<open>i\<close> in the complete binary tree, \<open>oc\<close> is the first octet covered and
  \<open>oc | hostMasks[l]\<close> the last one.
\<close>

definition entry_ok :: "nat \<Rightarrow> octet \<times> int \<Rightarrow> bool" where
  "entry_ok i e = (case e of (oc, l) \<Rightarrow>
     0 \<le> l \<and> l \<le> 8 \<and> 2 ^ nat l \<le> i \<and> i < 2 * 2 ^ nat l \<and>
     unat oc = (i - 2 ^ nat l) * 2 ^ (8 - nat l) \<and>
     unat (oc OR hostMasks ! nat l) = unat oc + 2 ^ (8 - nat l) - 1)"

fun entries_ok :: "nat \<Rightarrow> (octet \<times> int) list \<Rightarrow> bool" where
  "entries_ok i [] = True"
| "entries_ok i (e # es) = (entry_ok i e \<and> entries_ok (Suc i) es)"

section \<open>Rank and slots\<close>

lemma Rank_slot: "Test b i \<Longrightarrow> Rank b i = Suc (slot b i)"
proof -
  assume t: "Test b i"
  have "{j \<in> fset b. j \<le> i} = insert i {j \<in> fset b. j < i}"
    using t by (auto simp: Test_def)
  then show ?thesis by (simp add: Rank_def slot_def)
qed

lemma slot_less_Count: "Test b i \<Longrightarrow> slot b i < Count b"
proof -
  assume t: "Test b i"
  have "{j \<in> fset b. j < i} \<subset> fset b" using t by (auto simp: Test_def)
  then show ?thesis unfolding slot_def Count_def by (intro psubset_card_mono) auto
qed

lemma slot_le_Count: "slot b i \<le> Count b"
  unfolding slot_def Count_def by (intro card_mono) auto

lemma Test_Set: "Test (Set b i) j = (j = i \<or> Test b j)"
  by (auto simp: Test_def Set_def)

lemma Test_Clear: "Test (Clear b i) j = (j \<noteq> i \<and> Test b j)"
  by (auto simp: Test_def Clear_def)

lemma slot_Set_same: "slot (Set b i) i = slot b i"
  unfolding slot_def Set_def by (rule arg_cong [where f = card]) auto

lemma slot_Clear_same: "slot (Clear b i) i = slot b i"
  unfolding slot_def Clear_def by (rule arg_cong [where f = card]) auto

lemma Count_Set: "\<not> Test b i \<Longrightarrow> Count (Set b i) = Suc (Count b)"
  by (simp add: Count_def Set_def Test_def)

lemma Count_Clear: "Test b i \<Longrightarrow> Count (Clear b i) = Count b - 1"
  by (simp add: Count_def Clear_def Test_def)

lemma prefixRank_slot:
  "Test (prefixesBitset n) i \<Longrightarrow> prefixRank n i = int (slot (prefixesBitset n) i)"
  by (simp add: prefixRank_def Rank_slot)

lemma childRank_slot:
  "Test (childrenBitset n) (unat c) \<Longrightarrow> childRank n c = int (slot (childrenBitset n) (unat c))"
  by (simp add: childRank_def Rank_slot)

lemma prefixToBaseIndex_Some:
  "0 \<le> l \<Longrightarrow> l \<le> 8 \<Longrightarrow> \<exists>b. prefixToBaseIndex oc l = Some b"
  by (simp add: prefixToBaseIndex_def strideLen_def)

section \<open>Deleting what is not there\<close>

lemma deletePrefix_absent:
  "prefixToBaseIndex oc l = Some b \<Longrightarrow> \<not> Test (prefixesBitset n) b \<Longrightarrow>
   deletePrefix n oc l = Some (n, False)"
  by (simp add: deletePrefix_def)

lemma deletePrefix_present:
  assumes "prefixToBaseIndex oc l = Some b" "Test (prefixesBitset n) b"
    "length (prefixes n) = Count (prefixesBitset n)"
  shows "deletePrefix n oc l =
     Some (Node (Clear (prefixesBitset n) b) (childrenBitset n)
       (take (slot (prefixesBitset n) b) (prefixes n) @
        drop (Suc (slot (prefixesBitset n) b)) (prefixes n))
       (children n), True)"
  using assms slot_less_Count [of "prefixesBitset n" b]
  by (simp add: deletePrefix_def prefixRank_slot slices_Delete_def Compact_def nat_add_distrib)

text \<open>
  C7.  For a prefix length in \<open>[0, 8]\<close> the base index exists; when its bit is not set
  in the node, \<open>deletePrefix\<close> returns \<open>false\<close> and the node is the same node (both
  bit sets and both slices).  On a node whose prefix slice matches its bit set, a first
  \<open>deletePrefix\<close> returns, and a second one on its result returns \<open>false\<close> and
  changes nothing.
\<close>

theorem deletePrefix_absent_noop:
  assumes "0 \<le> l" "l \<le> 8" "length (prefixes n) = Count (prefixesBitset n)"
  shows "\<exists>b. prefixToBaseIndex oc l = Some b \<and>
           (\<not> Test (prefixesBitset n) b \<longrightarrow> deletePrefix n oc l = Some (n, False)) \<and>
           (\<exists>n1 r. deletePrefix n oc l = Some (n1, r) \<and> deletePrefix n1 oc l = Some (n1, False))"
proof -
  obtain b where b: "prefixToBaseIndex oc l = Some b"
    using prefixToBaseIndex_Some [OF assms(1,2)] by blast
  have absent: "\<And>m::'a node. \<not> Test (prefixesBitset m) b \<Longrightarrow> deletePrefix m oc l = Some (m, False)"
    using b by (rule deletePrefix_absent)
  have twice: "\<exists>n1 r. deletePrefix n oc l = Some (n1, r) \<and> deletePrefix n1 oc l = Some (n1, False)"
  proof (cases "Test (prefixesBitset n) b")
    case False
    then show ?thesis using absent by blast
  next
    case True
    let ?n1 = "Node (Clear (prefixesBitset n) b) (childrenBitset n)
       (take (slot (prefixesBitset n) b) (prefixes n) @
        drop (Suc (slot (prefixesBitset n) b)) (prefixes n))
       (children n)"
    have 1: "deletePrefix n oc l = Some (?n1, True)"
      using deletePrefix_present [OF b True assms(3)] .
    have "\<not> Test (prefixesBitset ?n1) b" by (simp add: Test_Clear)
    then have "deletePrefix ?n1 oc l = Some (?n1, False)" by (rule absent)
    with 1 show ?thesis by blast
  qed
  from b absent twice show ?thesis by blast
qed

theorem deletePrefix_absent_noop_witness:
  "(0::int) \<le> 1 \<and> (1::int) \<le> 8 \<and>
   length (prefixes (Node {|3|} {||} [10::nat] [])) = Count (prefixesBitset (Node {|3|} {||} [10::nat] [])) \<and>
   (\<exists>b. prefixToBaseIndex 128 1 = Some b \<and>
      (\<exists>n1 r. deletePrefix (Node {|3|} {||} [10::nat] []) 128 1 = Some (n1, r) \<and>
               deletePrefix n1 128 1 = Some (n1, False)))"
proof -
  have h: "length (prefixes (Node {|3|} {||} [10::nat] [])) = Count (prefixesBitset (Node {|3|} {||} [10::nat] []))"
    by (simp add: Count_def)
  show ?thesis
    using h deletePrefix_absent_noop [of 1 "Node {|3|} {||} [10::nat] []" 128, OF _ _ h]
    by auto
qed

text \<open>
  C10.  When the node has no child at octet \<open>b\<close> (\<open>getChild\<close> returns nil),
  \<open>deleteChild\<close> returns without a panic and the node is the same node: both bit sets,
  the prefix slice and the child slice.
\<close>

theorem deleteChild_absent_noop:
  "getChild n b = Some None \<Longrightarrow> deleteChild n b = Some n"
  by (auto simp: getChild_def deleteChild_def split: if_splits bind_splits)

theorem deleteChild_absent_noop_witness:
  "getChild (Node {|1|} {|7|} [10::nat] [newNode]) 3 = Some None \<and>
   deleteChild (Node {|1|} {|7|} [10::nat] [newNode]) 3 = Some (Node {|1|} {|7|} [10] [newNode])"
proof -
  have h: "getChild (Node {|1|} {|7|} [10::nat] [newNode]) 3 = Some None"
    by (simp add: getChild_def Test_def)
  show ?thesis using h deleteChild_absent_noop [OF h] by simp
qed

section \<open>Insert, get and delete of a prefix\<close>

lemma insertIdx_present:
  assumes "Test (prefixesBitset n) b" "length (prefixes n) = Count (prefixesBitset n)"
  shows "insertIdx n b v =
     Some (Node (prefixesBitset n) (childrenBitset n)
             ((prefixes n)[slot (prefixesBitset n) b := v]) (children n))"
  using assms slot_less_Count [of "prefixesBitset n" b]
  by (simp add: insertIdx_def prefixRank_slot assign_def)

lemma insertIdx_absent:
  assumes "\<not> Test (prefixesBitset n) b" "length (prefixes n) = Count (prefixesBitset n)"
  shows "insertIdx n b v =
     Some (Node (Set (prefixesBitset n) b) (childrenBitset n)
             (take (slot (prefixesBitset n) b) (prefixes n) @ v #
              drop (slot (prefixesBitset n) b) (prefixes n)) (children n))"
  using assms slot_le_Count [of "prefixesBitset n" b]
  by (simp add: insertIdx_def prefixRank_def Rank_slot Test_Set slot_Set_same slices_Insert_def)

lemma getValByIndex_present:
  assumes "Test (prefixesBitset n) b" "length (prefixes n) = Count (prefixesBitset n)"
  shows "getValByIndex n b = Some (prefixes n ! slot (prefixesBitset n) b, True)"
  using assms slot_less_Count [of "prefixesBitset n" b]
  by (simp add: getValByIndex_def prefixRank_slot index_def)

lemma getValByIndex_absent:
  "\<not> Test (prefixesBitset n) b \<Longrightarrow> getValByIndex n b = Some (0, False)"
  by (simp add: getValByIndex_def)

lemma insertIdx_result:
  assumes "length (prefixes n) = Count (prefixesBitset n)"
  shows "\<exists>n1. insertIdx n b v = Some n1 \<and> Test (prefixesBitset n1) b \<and>
               length (prefixes n1) = Count (prefixesBitset n1) \<and>
               prefixes n1 ! slot (prefixesBitset n1) b = v \<and>
               childrenBitset n1 = childrenBitset n \<and> children n1 = children n"
proof (cases "Test (prefixesBitset n) b")
  case True
  show ?thesis
    using True assms slot_less_Count [OF True]
    by (simp add: insertIdx_present [OF True assms])
next
  case False
  show ?thesis
    using False assms slot_le_Count [of "prefixesBitset n" b]
    by (simp add: insertIdx_absent [OF False assms] Test_Set Count_Set slot_Set_same nth_append)
qed

text \<open>
  C3.  On a node whose prefix slice matches its bit set, for every octet, every prefix
  length in \<open>[0, 8]\<close> and every value \<open>v\<close>: \<open>insertPrefix\<close> returns, and right after it
  \<open>getValByPrefix\<close> returns \<open>(v, true)\<close>; the following \<open>deletePrefix\<close> returns
  \<open>true\<close>, after which \<open>getValByPrefix\<close> returns the zero value with \<open>ok = false\<close>
  and a second \<open>deletePrefix\<close> returns \<open>false\<close>.
\<close>

theorem insert_get_delete_roundtrip:
  assumes "0 \<le> l" "l \<le> 8" "length (prefixes n) = Count (prefixesBitset n)"
  shows "\<exists>n1 n2. insertPrefix n oc l v = Some n1 \<and>
                  getValByPrefix n1 oc l = Some (v, True) \<and>
                  deletePrefix n1 oc l = Some (n2, True) \<and>
                  getValByPrefix n2 oc l = Some (0, False) \<and>
                  deletePrefix n2 oc l = Some (n2, False)"
proof -
  obtain b where b: "prefixToBaseIndex oc l = Some b"
    using prefixToBaseIndex_Some [OF assms(1,2)] by blast
  obtain n1 where n1: "insertIdx n b v = Some n1" "Test (prefixesBitset n1) b"
      "length (prefixes n1) = Count (prefixesBitset n1)"
      "prefixes n1 ! slot (prefixesBitset n1) b = v"
    using insertIdx_result [OF assms(3), of b v] by blast
  let ?n2 = "Node (Clear (prefixesBitset n1) b) (childrenBitset n1)
       (take (slot (prefixesBitset n1) b) (prefixes n1) @
        drop (Suc (slot (prefixesBitset n1) b)) (prefixes n1))
       (children n1)"
  have ins: "insertPrefix n oc l v = Some n1"
    using b n1(1) by (simp add: insertPrefix_def)
  have get1: "getValByPrefix n1 oc l = Some (v, True)"
    using b getValByIndex_present [OF n1(2,3)] n1(4) by (simp add: getValByPrefix_def)
  have del1: "deletePrefix n1 oc l = Some (?n2, True)"
    using deletePrefix_present [OF b n1(2,3)] .
  have absent: "\<not> Test (prefixesBitset ?n2) b" by (simp add: Test_Clear)
  have get2: "getValByPrefix ?n2 oc l = Some (0, False)"
    using b getValByIndex_absent [OF absent] by (simp add: getValByPrefix_def)
  have del2: "deletePrefix ?n2 oc l = Some (?n2, False)"
    using deletePrefix_absent [OF b absent] .
  from ins get1 del1 get2 del2 show ?thesis by blast
qed

theorem insert_get_delete_roundtrip_witness:
  "(0::int) \<le> 6 \<and> (6::int) \<le> 8 \<and>
   length (prefixes (Node {|3|} {||} [10::nat] [])) = Count (prefixesBitset (Node {|3|} {||} [10::nat] [])) \<and>
   (\<exists>n1 n2. insertPrefix (Node {|3|} {||} [10::nat] []) 32 6 42 = Some n1 \<and>
                  getValByPrefix n1 32 6 = Some (42, True) \<and>
                  deletePrefix n1 32 6 = Some (n2, True) \<and>
                  getValByPrefix n2 32 6 = Some (0, False) \<and>
                  deletePrefix n2 32 6 = Some (n2, False))"
proof -
  have h: "length (prefixes (Node {|3|} {||} [10::nat] [])) = Count (prefixesBitset (Node {|3|} {||} [10::nat] []))"
    by (simp add: Count_def)
  show ?thesis
    using h insert_get_delete_roundtrip [of 6 "Node {|3|} {||} [10::nat] []" 32 42, OF _ _ h]
    by auto
qed

lemma lpmByIndex_total:
  "length (prefixes n) = Count (prefixesBitset n) \<Longrightarrow> \<exists>r. lpmByIndex n idx = Some r"
proof (induction n idx rule: lpmByIndex.induct)
  case (1 n idx)
  show ?case
  proof (cases "Test (prefixesBitset n) idx")
    case True
    then show ?thesis
      using slot_less_Count [OF True] "1.prems"
      by (subst lpmByIndex.simps) (auto simp: prefixRank_slot index_def)
  next
    case False
    then show ?thesis
      using "1.IH" "1.prems" by (subst lpmByIndex.simps) auto
  qed
qed

lemma getChild_total:
  "length (children n) = Count (childrenBitset n) \<Longrightarrow> \<exists>r. getChild n oc = Some r"
  using slot_less_Count [of "childrenBitset n" "unat oc"]
  by (simp add: getChild_def childRank_slot index_def)

lemma updatePrefix_total:
  assumes "0 \<le> l" "l \<le> 8" "length (prefixes n) = Count (prefixesBitset n)"
  shows "\<exists>r. updatePrefix n oc l cb = Some r"
proof -
  obtain b where b: "prefixToBaseIndex oc l = Some b"
    using prefixToBaseIndex_Some [OF assms(1,2)] by blast
  show ?thesis
  proof (cases "Test (prefixesBitset n) b")
    case True
    then show ?thesis
      using b assms(3) slot_less_Count [OF True]
      by (simp add: updatePrefix_def prefixRank_slot index_def assign_def Let_def)
  next
    case False
    then show ?thesis
      using b assms(3) slot_le_Count [of "prefixesBitset n" b]
      by (simp add: updatePrefix_def prefixRank_def Rank_slot Test_Set slot_Set_same slices_Insert_def Let_def)
  qed
qed

text \<open>
  C9.  On a node with the popcount correspondence, a set prefix bit has its rank in
  \<open>[0, len(prefixes))\<close> and a set child bit has its rank in \<open>[0, len(children))\<close>;
  hence \<open>getValByIndex\<close>, \<open>lpmByIndex\<close>, \<open>insertIdx\<close>, \<open>updatePrefix\<close> (for a
  prefix length in \<open>[0, 8]\<close>) and \<open>getChild\<close> never take the out-of-range branch:
  they return without a panic.
\<close>

theorem guarded_accesses_in_bounds:
  assumes "popcount_ok n"
  shows "(Test (prefixesBitset n) idx \<longrightarrow>
            0 \<le> prefixRank n idx \<and> prefixRank n idx < int (length (prefixes n))) \<and>
         (Test (childrenBitset n) (unat oc) \<longrightarrow>
            0 \<le> childRank n oc \<and> childRank n oc < int (length (children n))) \<and>
         (\<exists>r. getValByIndex n idx = Some r) \<and>
         (\<exists>r. lpmByIndex n idx = Some r) \<and>
         (\<exists>r. insertIdx n idx v = Some r) \<and>
         (0 \<le> l \<and> l \<le> 8 \<longrightarrow> (\<exists>r. updatePrefix n oc l cb = Some r)) \<and>
         (\<exists>r. getChild n oc = Some r)"
proof -
  have p: "length (prefixes n) = Count (prefixesBitset n)"
    and c: "length (children n) = Count (childrenBitset n)"
    using assms by (simp_all add: popcount_ok_def)
  have 1: "Test (prefixesBitset n) idx \<longrightarrow>
            0 \<le> prefixRank n idx \<and> prefixRank n idx < int (length (prefixes n))"
    using p slot_less_Count [of "prefixesBitset n" idx] by (auto simp: prefixRank_slot)
  have 2: "Test (childrenBitset n) (unat oc) \<longrightarrow>
            0 \<le> childRank n oc \<and> childRank n oc < int (length (children n))"
    using c slot_less_Count [of "childrenBitset n" "unat oc"] by (auto simp: childRank_slot)
  have 3: "\<exists>r. getValByIndex n idx = Some r"
    using getValByIndex_present [OF _ p, of idx] getValByIndex_absent [of n idx] by blast
  have 4: "\<exists>r. lpmByIndex n idx = Some r" using p by (rule lpmByIndex_total)
  have 5: "\<exists>r. insertIdx n idx v = Some r" using insertIdx_result [OF p, of idx v] by blast
  have 6: "0 \<le> l \<and> l \<le> 8 \<longrightarrow> (\<exists>r. updatePrefix n oc l cb = Some r)"
    using updatePrefix_total [OF _ _ p] by blast
  have 7: "\<exists>r. getChild n oc = Some r" using c by (rule getChild_total)
  from 1 2 3 4 5 6 7 show ?thesis by blast
qed

theorem guarded_accesses_in_bounds_witness:
  "popcount_ok (Node {|3|} {|7|} [10::nat] [newNode]) \<and>
   Test (prefixesBitset (Node {|3|} {|7|} [10::nat] [newNode])) 3 \<and>
   0 \<le> prefixRank (Node {|3|} {|7|} [10::nat] [newNode]) 3 \<and>
   prefixRank (Node {|3|} {|7|} [10::nat] [newNode]) 3
     < int (length (prefixes (Node {|3|} {|7|} [10::nat] [newNode]))) \<and>
   Test (childrenBitset (Node {|3|} {|7|} [10::nat] [newNode])) (unat (7::octet)) \<and>
   0 \<le> childRank (Node {|3|} {|7|} [10::nat] [newNode]) 7 \<and>
   childRank (Node {|3|} {|7|} [10::nat] [newNode]) 7
     < int (length (children (Node {|3|} {|7|} [10::nat] [newNode])))"
proof -
  have h: "popcount_ok (Node {|3|} {|7|} [10::nat] [newNode])"
    by (simp add: popcount_ok_def Count_def)
  have t1: "Test (prefixesBitset (Node {|3|} {|7|} [10::nat] [newNode])) 3"
    by (simp add: Test_def)
  have t2: "Test (childrenBitset (Node {|3|} {|7|} [10::nat] [newNode])) (unat (7::octet))"
    by (simp add: Test_def)
  show ?thesis
    using h t1 t2 guarded_accesses_in_bounds [OF h, of 3 7]
    by blast
qed


section \<open>Longest prefix match inside a stride\<close>

lemma lpmByIndex_found:
  assumes "length (prefixes n) = Count (prefixesBitset n)"
  shows "Test (prefixesBitset n) (drop_bit k idx) \<Longrightarrow>
         (\<forall>j<k. \<not> Test (prefixesBitset n) (drop_bit j idx)) \<Longrightarrow>
         lpmByIndex n idx =
           Some (drop_bit k idx, prefixes n ! slot (prefixesBitset n) (drop_bit k idx), True)"
proof (induction k arbitrary: idx)
  case 0
  then have t: "Test (prefixesBitset n) idx" by simp
  show ?case
    using t assms slot_less_Count [OF t]
    by (subst lpmByIndex.simps) (simp add: prefixRank_slot index_def)
next
  case (Suc k)
  have nt: "\<not> Test (prefixesBitset n) idx" using Suc.prems(2) [rule_format, of 0] by simp
  have nz: "idx \<noteq> 0"
  proof
    assume "idx = 0"
    then have "drop_bit (Suc k) idx = idx" by simp
    then show False using Suc.prems(1) nt by simp
  qed
  have t': "Test (prefixesBitset n) (drop_bit k (drop_bit 1 idx))"
    using Suc.prems(1) by (simp add: drop_bit_drop_bit)
  have n': "\<forall>j<k. \<not> Test (prefixesBitset n) (drop_bit j (drop_bit 1 idx))"
    using Suc.prems(2) by (auto simp: drop_bit_drop_bit)
  have "lpmByIndex n idx = lpmByIndex n (drop_bit 1 idx)"
    using nt nz by (subst lpmByIndex.simps) simp
  also have "\<dots> = Some (drop_bit k (drop_bit 1 idx),
       prefixes n ! slot (prefixesBitset n) (drop_bit k (drop_bit 1 idx)), True)"
    using Suc.IH [OF t' n'] .
  finally show ?case by (simp add: drop_bit_drop_bit)
qed

lemma lpmByIndex_not_found:
  "(\<forall>k. \<not> Test (prefixesBitset n) (drop_bit k idx)) \<Longrightarrow> lpmByIndex n idx = Some (0, 0, False)"
proof (induction n idx rule: lpmByIndex.induct)
  case (1 n idx)
  have nt: "\<not> Test (prefixesBitset n) idx" using "1.prems" [rule_format, of 0] by simp
  show ?case
  proof (cases "idx = 0")
    case True
    then show ?thesis using nt by (subst lpmByIndex.simps) simp
  next
    case False
    have "\<forall>k. \<not> Test (prefixesBitset n) (drop_bit k (drop_bit 1 idx))"
      using "1.prems" by (simp add: drop_bit_drop_bit)
    then have "lpmByIndex n (drop_bit 1 idx) = Some (0, 0, False)"
      using "1.IH" nt False by blast
    then show ?thesis using nt False by (subst lpmByIndex.simps) simp
  qed
qed

lemma first_set_in_chain:
  assumes "Test b (drop_bit k (idx::nat))"
  shows "\<exists>k'. Test b (drop_bit k' idx) \<and> (\<forall>j<k'. \<not> Test b (drop_bit j idx))"
proof -
  let ?P = "\<lambda>k. Test b (drop_bit k idx)"
  have "?P (LEAST k. ?P k)" using assms by (rule LeastI)
  moreover have "\<forall>j<(LEAST k. ?P k). \<not> ?P j" using not_less_Least by blast
  ultimately show ?thesis by blast
qed



section \<open>The lookup table inverts the base index\<close>

lemma table_entries_ok: "entries_ok 1 (tl baseIdx2Pfx)"
  unfolding baseIdx2Pfx_def
  by (simp add: entry_ok_def hostMasks_def)

lemma length_baseIdx2Pfx: "length baseIdx2Pfx = 512"
  unfolding baseIdx2Pfx_def by simp

lemma entries_ok_nth: "entries_ok i es \<Longrightarrow> k < length es \<Longrightarrow> entry_ok (i + k) (es ! k)"
proof (induction es arbitrary: i k)
  case Nil
  then show ?case by simp
next
  case (Cons e es)
  show ?case
  proof (cases k)
    case 0
    then show ?thesis using Cons.prems by simp
  next
    case (Suc m)
    then show ?thesis using Cons.IH [of "Suc i" m] Cons.prems by simp
  qed
qed

lemma table_entry:
  assumes "1 \<le> b" "b \<le> 511"
  shows "entry_ok b (baseIdx2Pfx ! b)"
proof -
  have "b - 1 < length (tl baseIdx2Pfx)" using assms by (simp add: length_baseIdx2Pfx)
  from entries_ok_nth [OF table_entries_ok this]
  have "entry_ok b (tl baseIdx2Pfx ! (b - 1))" using assms by simp
  moreover have "tl baseIdx2Pfx ! (b - 1) = baseIdx2Pfx ! b"
    using assms by (simp add: nth_tl length_baseIdx2Pfx)
  ultimately show ?thesis by simp
qed


lemma baseIndexToPrefix_entry:
  assumes "1 \<le> b" "b \<le> 511"
  shows "\<exists>oc l. baseIndexToPrefix b = Some (oc, l) \<and> entry_ok b (oc, l)"
proof -
  obtain oc l where e: "baseIdx2Pfx ! b = (oc, l)" by (cases "baseIdx2Pfx ! b")
  have "baseIndexToPrefix b = Some (oc, l)"
    using assms e by (simp add: baseIndexToPrefix_def length_baseIdx2Pfx)
  moreover have "entry_ok b (oc, l)" using table_entry [OF assms] e by simp
  ultimately show ?thesis by blast
qed

lemma prefixToBaseIndex_entry:
  assumes "entry_ok b (oc, l)"
  shows "prefixToBaseIndex oc l = Some b"
proof -
  from assms have l: "0 \<le> l" "l \<le> 8" and lo: "2 ^ nat l \<le> b"
    and oc: "unat oc = (b - 2 ^ nat l) * 2 ^ (8 - nat l)"
    by (simp_all add: entry_ok_def)
  have k: "nat (8 - l) = 8 - nat l" using l by simp
  have "unat (drop_bit (8 - nat l) oc) = drop_bit (8 - nat l) (unat oc)"
    by (simp add: unat_drop_bit_eq)
  also have "\<dots> = unat oc div 2 ^ (8 - nat l)"
    by (simp add: drop_bit_eq_div)
  also have "\<dots> = b - 2 ^ nat l" by (simp add: oc)
  finally have "unat (drop_bit (8 - nat l) oc) + push_bit (nat l) 1 = b"
    using lo by (simp add: push_bit_eq_mult)
  then show ?thesis using l k by (simp add: prefixToBaseIndex_def strideLen_def)
qed

text \<open>
  C8.  For every base index \<open>b\<close> in \<open>[1, 511]\<close> the table yields \<open>(octet, pfxLen)\<close>
  with \<open>pfxLen\<close> in \<open>[0, 8]\<close> and \<open>prefixToBaseIndex(octet, pfxLen) = b\<close>; and for
  every octet \<open>prefixToBaseIndex(octet, 0) = 1\<close>.
\<close>

theorem baseIndexToPrefix_inverse:
  "(1 \<le> b \<and> b \<le> 511 \<longrightarrow>
      (\<exists>oc l. baseIndexToPrefix b = Some (oc, l) \<and> 0 \<le> l \<and> l \<le> 8 \<and>
               prefixToBaseIndex oc l = Some b)) \<and>
   prefixToBaseIndex oc' 0 = Some 1"
proof (intro conjI impI)
  assume "1 \<le> b \<and> b \<le> 511"
  then obtain oc l where e: "baseIndexToPrefix b = Some (oc, l)" "entry_ok b (oc, l)"
    using baseIndexToPrefix_entry by blast
  have "0 \<le> l \<and> l \<le> 8" using e(2) by (simp add: entry_ok_def)
  with e prefixToBaseIndex_entry [OF e(2)]
  show "\<exists>oc l. baseIndexToPrefix b = Some (oc, l) \<and> 0 \<le> l \<and> l \<le> 8 \<and>
               prefixToBaseIndex oc l = Some b"
    by blast
next
  have "drop_bit 8 oc' = 0" by (simp add: drop_bit_eq_zero_iff_not_bit_last) 
  then show "prefixToBaseIndex oc' 0 = Some 1"
    by (simp add: prefixToBaseIndex_def strideLen_def)
qed

theorem baseIndexToPrefix_inverse_witness:
  "(1::nat) \<le> 72 \<and> (72::nat) \<le> 511 \<and> baseIndexToPrefix 72 = Some (32, 6) \<and>
   prefixToBaseIndex 32 6 = Some 72 \<and> prefixToBaseIndex 200 0 = Some 1"
proof -
  have t: "baseIndexToPrefix 72 = Some (32, 6)"
    by (simp add: baseIndexToPrefix_def baseIdx2Pfx_def)
  show ?thesis
    using t baseIndexToPrefix_inverse [of 72 200]
    by simp
qed

section \<open>Slots under insertion and deletion\<close>

lemma slot_Set:
  "slot (Set b i) j = (if i < j \<and> \<not> Test b i then Suc (slot b j) else slot b j)"
proof (cases "i < j \<and> \<not> Test b i")
  case True
  have "{k \<in> fset (Set b i). k < j} = insert i {k \<in> fset b. k < j}"
    using True by (auto simp: Set_def)
  moreover have "i \<notin> {k \<in> fset b. k < j}" using True by (simp add: Test_def)
  ultimately show ?thesis using True by (simp add: slot_def)
next
  case False
  have "{k \<in> fset (Set b i). k < j} = {k \<in> fset b. k < j}"
    using False by (auto simp: Set_def Test_def)
  then show ?thesis using False by (simp add: slot_def)
qed

lemma slot_Clear:
  "slot (Clear b i) j = (if i < j \<and> Test b i then slot b j - 1 else slot b j)"
proof (cases "i < j \<and> Test b i")
  case True
  have "{k \<in> fset (Clear b i). k < j} = {k \<in> fset b. k < j} - {i}"
    by (auto simp: Clear_def)
  moreover have "i \<in> {k \<in> fset b. k < j}" using True by (simp add: Test_def)
  ultimately show ?thesis using True by (simp add: slot_def)
next
  case False
  have "{k \<in> fset (Clear b i). k < j} = {k \<in> fset b. k < j}"
    using False by (auto simp: Clear_def Test_def)
  then have "slot (Clear b i) j = slot b j" by (simp add: slot_def)
  then show ?thesis using False by auto
qed

lemma slot_mono: "i \<le> j \<Longrightarrow> slot b i \<le> slot b j"
  unfolding slot_def by (intro card_mono) auto

lemma slot_strict: "Test b i \<Longrightarrow> i < j \<Longrightarrow> slot b i < slot b j"
proof -
  assume t: "Test b i" and l: "i < j"
  have "i \<in> {k \<in> fset b. k < j}" "i \<notin> {k \<in> fset b. k < i}" 
    using t l by (auto simp: Test_def)
  moreover have "{k \<in> fset b. k < i} \<subseteq> {k \<in> fset b. k < j}" using l by auto
  ultimately have "{k \<in> fset b. k < i} \<subset> {k \<in> fset b. k < j}" by blast
  then show ?thesis unfolding slot_def by (intro psubset_card_mono) auto
qed

lemma slot_inj: "Test b i \<Longrightarrow> Test b j \<Longrightarrow> slot b i = slot b j \<Longrightarrow> i = j"
  using slot_strict [of b i j] slot_strict [of b j i] by (cases i j rule: linorder_cases) auto

lemma valAt_update:
  assumes "length xs = Count b" "Test b i"
  shows "valAt b (xs[slot b i := v]) = (valAt b xs)(i \<mapsto> v)"
proof
  fix j
  show "valAt b (xs[slot b i := v]) j = ((valAt b xs)(i \<mapsto> v)) j"
  proof (cases "j = i")
    case True
    then show ?thesis using assms slot_less_Count [OF assms(2)] by (simp add: valAt_def)
  next
    case False
    show ?thesis
    proof (cases "Test b j")
      case True
      then have "slot b i \<noteq> slot b j" using slot_inj [of b i j] assms(2) False by auto
      then show ?thesis using False True by (simp add: valAt_def)
    next
      case nt: False
      then show ?thesis using False by (simp add: valAt_def)
    qed
  qed
qed

lemma valAt_insert:
  assumes "length xs = Count b" "\<not> Test b i"
  shows "valAt (Set b i) (take (slot b i) xs @ v # drop (slot b i) xs) = (valAt b xs)(i \<mapsto> v)"
proof
  fix j
  have le: "slot b i \<le> length xs" using assms(1) slot_le_Count [of b i] by simp
  show "valAt (Set b i) (take (slot b i) xs @ v # drop (slot b i) xs) j = ((valAt b xs)(i \<mapsto> v)) j"
  proof (cases "j = i")
    case True
    then show ?thesis using le by (simp add: valAt_def Test_Set slot_Set_same nth_append)
  next
    case False
    show ?thesis
    proof (cases "Test b j")
      case nt: False
      then show ?thesis using False by (simp add: valAt_def Test_Set)
    next
      case t: True
      have lt: "slot b j < length xs" using assms(1) slot_less_Count [OF t] by simp
      show ?thesis
      proof (cases "i < j")
        case True
        have "slot b i \<le> slot b j" using True by (simp add: slot_mono)
        then show ?thesis
          using False t True assms(2) le lt
          by (simp add: valAt_def Test_Set slot_Set nth_append Suc_diff_le)
      next
        case nl: False
        then have "j < i" using False by simp
        then have "slot b j < slot b i" using t by (simp add: slot_strict)
        then show ?thesis
          using False t nl assms(2) le lt
          by (simp add: valAt_def Test_Set slot_Set nth_append)
      qed
    qed
  qed
qed

lemma valAt_delete:
  assumes "length xs = Count b" "Test b i"
  shows "valAt (Clear b i) (take (slot b i) xs @ drop (Suc (slot b i)) xs) = (valAt b xs)(i := None)"
proof
  fix j
  have li: "slot b i < length xs" using assms slot_less_Count [of b i] by simp
  show "valAt (Clear b i) (take (slot b i) xs @ drop (Suc (slot b i)) xs) j = ((valAt b xs)(i := None)) j"
  proof (cases "j \<noteq> i \<and> Test b j")
    case False
    then show ?thesis by (auto simp: valAt_def Test_Clear)
  next
    case True
    have lt: "slot b j < length xs" using assms(1) slot_less_Count [of b j] True by simp
    show ?thesis
    proof (cases "i < j")
      case l: True
      have sl: "slot b i < slot b j" using l assms(2) by (simp add: slot_strict)
      have "(take (slot b i) xs @ drop (Suc (slot b i)) xs) ! (slot b j - 1)
              = drop (Suc (slot b i)) xs ! (slot b j - 1 - slot b i)"
      proof -
        have "length (take (slot b i) xs) = slot b i" using li by simp
        moreover have "\<not> slot b j - 1 < slot b i" using sl by arith
        ultimately show ?thesis by (simp add: nth_append)
      qed
      also have "\<dots> = xs ! slot b j"
      proof -
        have "Suc (slot b i) + (slot b j - 1 - slot b i) = slot b j" using sl by arith
        moreover have "Suc (slot b i) \<le> length xs" using li by simp
        ultimately show ?thesis by (simp add: nth_drop del: drop_Suc)
      qed
      finally show ?thesis
        using True l assms(2) by (simp add: valAt_def Test_Clear slot_Clear)
    next
      case nl: False
      then have "j < i" using True by simp
      then have "slot b j < slot b i" using True by (simp add: slot_strict)
      then show ?thesis
        using True nl assms(2) li lt
        by (simp add: valAt_def Test_Clear slot_Clear nth_append min_def)
    qed
  qed
qed

section \<open>Effects of the node operations\<close>

lemma node_inv_iff:
  "node_inv n \<longleftrightarrow> length (prefixes n) = Count (prefixesBitset n) \<and>
     length (children n) = Count (childrenBitset n) \<and>
     (\<forall>c. Test (childrenBitset n) c \<longrightarrow> c < 256) \<and> (\<forall>ch \<in> set (children n). node_inv ch)"
  by (cases n) simp

lemma valAt_dom: "valAt b xs i \<noteq> None \<longleftrightarrow> Test b i"
  by (simp add: valAt_def)

lemma valAt_in_set:
  "length xs = Count b \<Longrightarrow> valAt b xs i = Some x \<Longrightarrow> x \<in> set xs"
  using slot_less_Count [of b i] by (auto simp: valAt_def split: if_splits)

lemma set_valAt:
  assumes "length xs = Count b" "x \<in> set xs"
  shows "\<exists>i. valAt b xs i = Some x"
proof -
  obtain k where k: "k < length xs" "xs ! k = x" using assms(2) by (auto simp: in_set_conv_nth)
  define l where "l = sorted_list_of_set (fset b)"
  have sl: "set l = fset b" and sd: "sorted l" "distinct l" by (simp_all add: l_def)
  have len: "length l = Count b" by (simp add: l_def Count_def)
  have kl: "k < length l" using k(1) assms(1) len by simp
  have mem: "l ! k \<in> fset b" using kl sl nth_mem by blast
  have "set (take k l) = {j \<in> set l. j < l ! k}"
  proof (intro set_eqI iffI)
    fix j assume "j \<in> set (take k l)"
    then obtain m where m: "m < k" "l ! m = j" using kl by (auto simp: in_set_conv_nth)
    have "l ! m \<le> l ! k" using sd(1) m(1) kl by (simp add: sorted_nth_mono)
    moreover have "l ! m \<noteq> l ! k" using sd(2) m(1) kl by (simp add: nth_eq_iff_index_eq)
    moreover have "l ! m \<in> set l" using m(1) kl by (intro nth_mem) simp
    ultimately show "j \<in> {j \<in> set l. j < l ! k}" using m(2) by auto
  next
    fix j assume "j \<in> {j \<in> set l. j < l ! k}"
    then obtain m where m: "m < length l" "l ! m = j" "j < l ! k" by (auto simp: in_set_conv_nth)
    have "m < k"
    proof (rule ccontr)
      assume "\<not> m < k"
      then have "l ! k \<le> l ! m" using sd(1) m(1) by (simp add: sorted_nth_mono)
      then show False using m by simp
    qed
    then show "j \<in> set (take k l)" using m(1,2) by (auto simp: in_set_conv_nth)
  qed
  then have "{j \<in> fset b. j < l ! k} = set (take k l)" using sl by simp
  moreover have "card (set (take k l)) = k"
    using sd(2) kl by (simp add: distinct_card)
  ultimately have "slot b (l ! k) = k" by (simp add: slot_def)
  then have "valAt b xs (l ! k) = Some x" using mem k by (simp add: valAt_def Test_def)
  then show ?thesis by blast
qed

lemma insertIdx_effect:
  assumes "length (prefixes n) = Count (prefixesBitset n)"
  shows "\<exists>n'. insertIdx n i v = Some n' \<and> prefixAt n' = (prefixAt n)(i \<mapsto> v) \<and>
            length (prefixes n') = Count (prefixesBitset n') \<and>
            childrenBitset n' = childrenBitset n \<and> children n' = children n"
proof (cases "Test (prefixesBitset n) i")
  case True
  show ?thesis
    using assms True
    by (simp add: insertIdx_present [OF True assms] prefixAt_def valAt_update)
next
  case False
  show ?thesis
    using assms False slot_le_Count [of "prefixesBitset n" i]
    by (simp add: insertIdx_absent [OF False assms] prefixAt_def valAt_insert Count_Set)
qed

lemma deletePrefix_effect:
  assumes "length (prefixes n) = Count (prefixesBitset n)" "prefixToBaseIndex oc l = Some i"
  shows "\<exists>n'. deletePrefix n oc l = Some (n', Test (prefixesBitset n) i) \<and>
            prefixAt n' = (prefixAt n)(i := None) \<and>
            length (prefixes n') = Count (prefixesBitset n') \<and>
            childrenBitset n' = childrenBitset n \<and> children n' = children n"
proof (cases "Test (prefixesBitset n) i")
  case True
  have "slot (prefixesBitset n) i < length (prefixes n)"
    using slot_less_Count [OF True] assms(1) by simp
  then show ?thesis
    using assms True
    by (simp add: deletePrefix_present [OF assms(2) True assms(1)] prefixAt_def valAt_delete
        Count_Clear min_def)
next
  case False
  have "(prefixAt n)(i := None) = prefixAt n"
    using False by (auto simp: prefixAt_def valAt_def)
  then show ?thesis
    using assms False by (simp add: deletePrefix_absent [OF assms(2) False])
qed

lemma updatePrefix_effect:
  assumes "length (prefixes n) = Count (prefixesBitset n)" "prefixToBaseIndex oc l = Some i"
  shows "\<exists>n'. updatePrefix n oc l cb =
              Some (n', cb (case prefixAt n i of None \<Rightarrow> 0 | Some v \<Rightarrow> v) (prefixAt n i \<noteq> None)) \<and>
            prefixAt n' =
              (prefixAt n)(i \<mapsto> cb (case prefixAt n i of None \<Rightarrow> 0 | Some v \<Rightarrow> v) (prefixAt n i \<noteq> None)) \<and>
            length (prefixes n') = Count (prefixesBitset n') \<and>
            childrenBitset n' = childrenBitset n \<and> children n' = children n"
proof (cases "Test (prefixesBitset n) i")
  case True
  show ?thesis
    using assms True slot_less_Count [OF True]
    by (simp add: updatePrefix_def prefixRank_slot index_def assign_def Let_def prefixAt_def
        valAt_update) (simp add: valAt_def)
next
  case False
  show ?thesis
    using assms False slot_le_Count [of "prefixesBitset n" i]
    by (simp add: updatePrefix_def prefixRank_def Rank_slot Test_Set slot_Set_same
        slices_Insert_def Let_def prefixAt_def valAt_insert Count_Set) (simp add: valAt_def)
qed

lemma insertChild_effect:
  assumes "length (children n) = Count (childrenBitset n)"
  shows "\<exists>n'. insertChild n oc c = Some n' \<and> childAt n' = (childAt n)(unat oc \<mapsto> c) \<and>
            length (children n') = Count (childrenBitset n') \<and>
            prefixesBitset n' = prefixesBitset n \<and> prefixes n' = prefixes n \<and>
            childrenBitset n' = Set (childrenBitset n) (unat oc) \<and>
            set (children n') \<subseteq> insert c (set (children n))"
proof (cases "Test (childrenBitset n) (unat oc)")
  case True
  have "Set (childrenBitset n) (unat oc) = childrenBitset n"
    using True by (auto simp: Set_def Test_def)
  then show ?thesis
    using assms True slot_less_Count [OF True] set_update_subset_insert
    by (simp add: insertChild_def childRank_slot assign_def childAt_def valAt_update)
next
  case False
  have "set (take (slot (childrenBitset n) (unat oc)) (children n)) \<subseteq> set (children n)"
       "set (drop (slot (childrenBitset n) (unat oc)) (children n)) \<subseteq> set (children n)"
    by (simp_all add: set_take_subset set_drop_subset)
  then show ?thesis
    using assms False slot_le_Count [of "childrenBitset n" "unat oc"]
    by (auto simp: insertChild_def childRank_def Rank_slot Test_Set slot_Set_same
        slices_Insert_def Let_def childAt_def valAt_insert Count_Set)
qed

lemma deleteChild_effect:
  assumes "length (children n) = Count (childrenBitset n)"
  shows "\<exists>n'. deleteChild n oc = Some n' \<and> childAt n' = (childAt n)(unat oc := None) \<and>
            length (children n') = Count (childrenBitset n') \<and>
            prefixesBitset n' = prefixesBitset n \<and> prefixes n' = prefixes n \<and>
            (\<forall>c. Test (childrenBitset n') c \<longrightarrow> Test (childrenBitset n) c) \<and>
            set (children n') \<subseteq> set (children n)"
proof (cases "Test (childrenBitset n) (unat oc)")
  case True
  have lt: "slot (childrenBitset n) (unat oc) < length (children n)"
    using slot_less_Count [OF True] assms by simp
  have "set (take (slot (childrenBitset n) (unat oc)) (children n)) \<subseteq> set (children n)"
       "set (drop (Suc (slot (childrenBitset n) (unat oc))) (children n)) \<subseteq> set (children n)"
    by (simp_all add: set_take_subset set_drop_subset)
  then show ?thesis
    using assms True lt
    by (auto simp: deleteChild_def childRank_slot slices_Delete_def Let_def childAt_def
        valAt_delete Count_Clear Compact_def Test_Clear min_def nat_add_distrib)
next
  case False
  have "(childAt n)(unat oc := None) = childAt n"
    using False by (auto simp: childAt_def valAt_def)
  then show ?thesis using False assms by (simp add: deleteChild_def)
qed

lemma Count_0: "Count b = 0 \<longleftrightarrow> b = {||}"
  by (auto simp: Count_def)

lemma cloneRec_id: "node_inv n \<Longrightarrow> cloneRec n = n"
proof (induction n rule: cloneRec.induct)
  case (1 pb cb ps cs)
  show ?case
  proof (cases "isEmpty (Node pb cb ps cs)")
    case True
    then have "ps = []" "cs = []" by (simp_all add: isEmpty_def)
    moreover from this "1.prems" have "pb = {||}" "cb = {||}" by (simp_all add: Count_0 [symmetric])
    ultimately show ?thesis by (simp add: newNode_def New_def isEmpty_def)
  next
    case False
    have "map cloneRec cs = cs"
      using "1.IH" [OF False] "1.prems" by (intro map_idI) simp
    then show ?thesis using False by (simp add: Clone_def)
  qed
qed

lemma getChild_childAt:
  "length (children n) = Count (childrenBitset n) \<Longrightarrow> getChild n oc = Some (childAt n (unat oc))"
  using slot_less_Count [of "childrenBitset n" "unat oc"]
  by (simp add: getChild_def childRank_slot index_def childAt_def valAt_def)

lemma getValByIndex_prefixAt:
  "length (prefixes n) = Count (prefixesBitset n) \<Longrightarrow>
   getValByIndex n i = Some (case prefixAt n i of None \<Rightarrow> 0 | Some v \<Rightarrow> v, prefixAt n i \<noteq> None)"
  using getValByIndex_present [of n i] getValByIndex_absent [of n i]
  by (cases "Test (prefixesBitset n) i") (simp_all add: prefixAt_def valAt_def)

lemma childAt_inv: "node_inv n \<Longrightarrow> childAt n c = Some ch \<Longrightarrow> node_inv ch"
  using valAt_in_set [of "children n" "childrenBitset n" c ch]
  by (auto simp: node_inv_iff [of n] childAt_def)

lemma childAt_octet: "node_inv n \<Longrightarrow> childAt n c = Some ch \<Longrightarrow> c < 256"
  by (auto simp: node_inv_iff [of n] childAt_def valAt_def split: if_splits)

lemma unionPrefixes_effect:
  "length (prefixes m) = Count (prefixesBitset m) \<Longrightarrow>
   length (prefixes n) = Count (prefixesBitset n) \<Longrightarrow>
         \<exists>n'. unionPrefixes n m k = Some n' \<and>
            prefixAt n' = (\<lambda>i. if k \<le> i \<and> prefixAt m i \<noteq> None then prefixAt m i else prefixAt n i) \<and>
            length (prefixes n') = Count (prefixesBitset n') \<and>
            childrenBitset n' = childrenBitset n \<and> children n' = children n"
proof (induction n m k rule: unionPrefixes.induct)
  case (1 n m k)
  note m = "1.prems"(1)
  obtain i ok where ns: "NextSet (prefixesBitset m) k = (i, ok)"
    by (cases "NextSet (prefixesBitset m) k")
  show ?case
  proof (cases ok)
    case False
    have ns': "NextSet (prefixesBitset m) k = (i, False)" using ns False by simp
    have "\<And>j. k \<le> j \<Longrightarrow> prefixAt m j = None"
      using NextSet_none(2) [OF ns']
      by (fastforce simp: prefixAt_def valAt_def Test_def)
    then have "(\<lambda>i. if k \<le> i \<and> prefixAt m i \<noteq> None then prefixAt m i else prefixAt n i) = prefixAt n"
      by (intro ext) auto
    then show ?thesis
      using ns False "1.prems"(2) by (subst unionPrefixes.simps) simp
  next
    case True
    have ns': "NextSet (prefixesBitset m) k = (i, True)" using ns True by simp
    note f = NextSet_found [OF ns']
    have ti: "Test (prefixesBitset m) i" using f(1) by (simp add: Test_def)
    obtain v where v: "prefixAt m i = Some v" using ti by (simp add: prefixAt_def valAt_def)
    have "getValByIndex m i =
        Some (case prefixAt m i of None \<Rightarrow> 0 | Some v \<Rightarrow> v, prefixAt m i \<noteq> None)"
      using m by (rule getValByIndex_prefixAt)
    then have g: "getValByIndex m i = Some (v, True)"
      unfolding v by simp
    obtain n1 where n1: "insertIdx n i v = Some n1" "prefixAt n1 = (prefixAt n)(i \<mapsto> v)"
        "length (prefixes n1) = Count (prefixesBitset n1)"
        "childrenBitset n1 = childrenBitset n" "children n1 = children n"
      using insertIdx_effect [OF "1.prems"(2), of i v] by blast
    obtain n' where n': "unionPrefixes n1 m (i + 1) = Some n'"
        "prefixAt n' = (\<lambda>j. if i + 1 \<le> j \<and> prefixAt m j \<noteq> None then prefixAt m j else prefixAt n1 j)"
        "length (prefixes n') = Count (prefixesBitset n')"
        "childrenBitset n' = childrenBitset n1" "children n' = children n1"
    proof -
      have nn: "\<not> \<not> ok" using True by simp
      have pr: "(v, True) = (v, True)" by simp
      from "1.IH" [OF ns [symmetric] nn g pr n1(1) m n1(3)] that show ?thesis by auto
    qed
    have gap: "\<And>j. k \<le> j \<Longrightarrow> j < i \<Longrightarrow> prefixAt m j = None"
    proof -
      fix j assume "k \<le> j" "j < i"
      then have "\<not> j |\<in>| prefixesBitset m" using f(3) [of j] by auto
      then show "prefixAt m j = None" by (simp add: prefixAt_def valAt_def Test_def)
    qed
    have eq: "prefixAt n' = (\<lambda>j. if k \<le> j \<and> prefixAt m j \<noteq> None then prefixAt m j else prefixAt n j)"
    proof
      fix j
      consider "j < k" | "k \<le> j" "j < i" | "j = i" | "i < j" by linarith
      then show "prefixAt n' j = (if k \<le> j \<and> prefixAt m j \<noteq> None then prefixAt m j else prefixAt n j)"
      proof cases
        case 1
        then show ?thesis using f(2) by (simp add: n'(2) n1(2))
      next
        case 2
        then show ?thesis using gap [of j] by (simp add: n'(2) n1(2))
      next
        case 3
        then show ?thesis using f(2) v by (simp add: n'(2) n1(2))
      next
        case 4
        then show ?thesis using f(2) by (simp add: n'(2) n1(2))
      qed
    qed
    have "unionPrefixes n m k = Some n'"
      using ns True g n1(1) n'(1) by (subst unionPrefixes.simps) simp
    then show ?thesis using eq n'(3,4,5) n1(4,5) by simp
  qed
qed

section \<open>The effect of unionRec on one node\<close>

lemma node_inv_set_child:
  assumes "node_inv n" "Test (childrenBitset n) c" "node_inv x"
  shows "node_inv (Node (prefixesBitset n) (childrenBitset n) (prefixes n)
            ((children n)[slot (childrenBitset n) c := x]))"
proof -
  have "set ((children n)[slot (childrenBitset n) c := x]) \<subseteq> insert x (set (children n))"
    by (rule set_update_subset_insert)
  then show ?thesis using assms by (auto simp: node_inv_iff [of n])
qed

lemma node_inv_insertChild:
  assumes "node_inv n" "node_inv x" "insertChild n oc x = Some n1"
  shows "node_inv n1"
proof -
  have c: "length (children n) = Count (childrenBitset n)" using assms(1) by (simp add: node_inv_iff [of n])
  from insertChild_effect [OF c, of oc x] assms(3)
  have e: "length (children n1) = Count (childrenBitset n1)"
    "prefixesBitset n1 = prefixesBitset n" "prefixes n1 = prefixes n"
    "childrenBitset n1 = Set (childrenBitset n) (unat oc)"
    "set (children n1) \<subseteq> insert x (set (children n))"
    by auto
  have "unat oc < 256" using unsigned_less [of oc, where 'a = nat] by simp
  then show ?thesis
    using assms(1,2) e by (subst node_inv_iff) (auto simp: node_inv_iff [of n] Test_Set)
qed

lemma unat_of_nat_octet: "c < 256 \<Longrightarrow> unat (of_nat c :: octet) = c"
  by (simp add: unat_of_nat)

lemma union_child_step:
  assumes n: "node_inv n" and m: "node_inv m" and mc: "childAt m c = Some mc"
    and ih: "\<And>nc. childAt n c = Some nc \<Longrightarrow> \<exists>nc'. unionRec nc mc = Some nc' \<and> node_inv nc'"
  shows "\<exists>n1. (case childAt n c of
                 None \<Rightarrow> (case Some mc of None \<Rightarrow> None
                           | Some oNode' \<Rightarrow> insertChild n (of_nat c) (cloneRec oNode'))
               | Some nNode' \<Rightarrow>
                   (case Some mc of None \<Rightarrow> None
                    | Some oNode' \<Rightarrow> do {
                        nNode'' \<leftarrow> unionRec nNode' oNode';
                        Some (Node (prefixesBitset n) (childrenBitset n) (prefixes n)
                               ((children n)[nat (childRank n (of_nat c)) := nNode''])) })) = Some n1 \<and>
              node_inv n1 \<and> prefixAt n1 = prefixAt n \<and>
              childAt n1 = (childAt n)(c := mergeChild (childAt n c) (Some mc))"
proof -
  have c256: "c < 256" using childAt_octet [OF m mc] .
  have u: "unat (of_nat c :: octet) = c" using c256 by (rule unat_of_nat_octet)
  have lc: "length (children n) = Count (childrenBitset n)" using n by (simp add: node_inv_iff [of n])
  have imc: "node_inv mc" using childAt_inv [OF m mc] .
  show ?thesis
  proof (cases "childAt n c")
    case None
    obtain n1 where n1: "insertChild n (of_nat c) (cloneRec mc) = Some n1"
        "childAt n1 = (childAt n)(c \<mapsto> cloneRec mc)"
        "prefixesBitset n1 = prefixesBitset n" "prefixes n1 = prefixes n"
      using insertChild_effect [OF lc, of "of_nat c" "cloneRec mc"] u by auto
    have "node_inv n1"
      using node_inv_insertChild [OF n _ n1(1)] imc by (simp add: cloneRec_id)
    then show ?thesis
      using None n1 by (simp add: mergeChild_def prefixAt_def)
  next
    case (Some nc)
    obtain nc' where nc': "unionRec nc mc = Some nc'" "node_inv nc'" using ih [OF Some] by blast
    have t: "Test (childrenBitset n) c" using Some by (simp add: childAt_def valAt_def split: if_splits)
    have r: "nat (childRank n (of_nat c)) = slot (childrenBitset n) c"
      using t u by (simp add: childRank_slot)
    let ?n1 = "Node (prefixesBitset n) (childrenBitset n) (prefixes n)
                 ((children n)[slot (childrenBitset n) c := nc'])"
    have "node_inv ?n1" using node_inv_set_child [OF n t nc'(2)] .
    moreover have "childAt ?n1 = (childAt n)(c \<mapsto> nc')"
      using valAt_update [OF lc t] by (simp add: childAt_def)
    moreover have "prefixAt ?n1 = prefixAt n" by (simp add: prefixAt_def)
    ultimately show ?thesis
      using Some nc'(1) r by (simp add: mergeChild_def)
  qed
qed

lemma unionRec_effect:
  "node_inv n \<Longrightarrow> node_inv m \<Longrightarrow> \<exists>n'. unionRec n m = Some n' \<and> union_post n m n'"
  and unionChildren_effect:
  "node_inv n \<Longrightarrow> node_inv m \<Longrightarrow> \<exists>n'. unionChildren n m k = Some n' \<and> children_post n m k n'"
proof (induction n m and n m k rule: unionRec_unionChildren.induct)
  case (1 n m)
  have pn: "length (prefixes n) = Count (prefixesBitset n)"
    and pm: "length (prefixes m) = Count (prefixesBitset m)"
    using "1.prems" by (simp_all add: node_inv_iff [of n] node_inv_iff [of m])
  obtain n1 where n1: "unionPrefixes n m 0 = Some n1"
      "prefixAt n1 = (\<lambda>i. if 0 \<le> i \<and> prefixAt m i \<noteq> None then prefixAt m i else prefixAt n i)"
      "length (prefixes n1) = Count (prefixesBitset n1)"
      "childrenBitset n1 = childrenBitset n" "children n1 = children n"
    using unionPrefixes_effect [OF pm pn, of 0] by blast
  have i1: "node_inv n1"
    using "1.prems"(1) n1(3,4,5) by (subst node_inv_iff) (simp add: node_inv_iff [of n])
  obtain n' where n': "unionChildren n1 m 0 = Some n'" "children_post n1 m 0 n'"
    using "1.IH" [OF n1(1) i1 "1.prems"(2)] by blast
  have c1: "childAt n1 = childAt n" using n1(4,5) by (simp add: childAt_def)
  have p1: "prefixAt n1 = prefixAt n ++ prefixAt m"
    by (rule ext) (auto simp: n1(2) map_add_def split: option.splits)
  have "union_post n m n'"
    using n'(2) c1 p1 by (simp add: union_post_def children_post_def)
  moreover have "unionRec n m = Some n'"
    using n1(1) n'(1) by (subst unionRec.simps) simp
  ultimately show ?case by blast
next
  case (2 n m k)
  obtain c ok where ns: "NextSet (childrenBitset m) k = (c, ok)"
    by (cases "NextSet (childrenBitset m) k")
  have lm: "length (children m) = Count (childrenBitset m)"
    and ln: "length (children n) = Count (childrenBitset n)"
    using "2.prems" by (simp_all add: node_inv_iff [of n] node_inv_iff [of m])
  show ?case
  proof (cases ok)
    case False
    have ns': "NextSet (childrenBitset m) k = (c, False)" using ns False by simp
    have none: "\<And>j. k \<le> j \<Longrightarrow> childAt m j = None"
      using NextSet_none(2) [OF ns'] by (fastforce simp: childAt_def valAt_def Test_def)
    have "childAt n = (\<lambda>c. if k \<le> c then mergeChild (childAt n c) (childAt m c) else childAt n c)"
      by (rule ext) (simp add: none mergeChild_def)
    then have "children_post n m k n"
      using "2.prems"(1) by (simp add: children_post_def)
    moreover have "unionChildren n m k = Some n"
      using ns' by (subst unionChildren.simps) simp
    ultimately show ?thesis by blast
  next
    case True
    have ns': "NextSet (childrenBitset m) k = (c, True)" using ns True by simp
    note f = NextSet_found [OF ns']
    have tc: "Test (childrenBitset m) c" using f(1) by (simp add: Test_def)
    obtain mc where mc: "childAt m c = Some mc" using tc by (simp add: childAt_def valAt_def)
    have c256: "c < 256" using childAt_octet [OF "2.prems"(2) mc] .
    have u: "unat (of_nat c :: octet) = c" using c256 by (rule unat_of_nat_octet)
    have gm: "getChild m (of_nat c) = Some (Some mc)"
      using getChild_childAt [OF lm, of "of_nat c"] u mc by simp
    have gn: "getChild n (of_nat c) = Some (childAt n c)"
      using getChild_childAt [OF ln, of "of_nat c"] u by simp
    have nn: "\<not> \<not> ok" using True by simp
    have imc: "node_inv mc" using childAt_inv [OF "2.prems"(2) mc] .
    have ih1: "\<exists>nc'. unionRec nc mc = Some nc' \<and> node_inv nc'" if "childAt n c = Some nc" for nc
    proof -
      have "node_inv nc" using childAt_inv [OF "2.prems"(1) that] .
      from "2.IH"(1) [OF ns [symmetric] nn gm gn that refl this imc]
      show ?thesis by (auto simp: union_post_def)
    qed
    obtain n1 where n1: "(case childAt n c of
                 None \<Rightarrow> (case Some mc of None \<Rightarrow> None
                           | Some oNode' \<Rightarrow> insertChild n (of_nat c) (cloneRec oNode'))
               | Some nNode' \<Rightarrow>
                   (case Some mc of None \<Rightarrow> None
                    | Some oNode' \<Rightarrow> do {
                        nNode'' \<leftarrow> unionRec nNode' oNode';
                        Some (Node (prefixesBitset n) (childrenBitset n) (prefixes n)
                               ((children n)[nat (childRank n (of_nat c)) := nNode''])) })) = Some n1"
        "node_inv n1" "prefixAt n1 = prefixAt n"
        "childAt n1 = (childAt n)(c := mergeChild (childAt n c) (Some mc))"
      using union_child_step [OF "2.prems" mc ih1] by blast
    obtain n' where n': "unionChildren n1 m (c + 1) = Some n'" "children_post n1 m (c + 1) n'"
      using "2.IH"(2) [OF ns [symmetric] nn gm gn n1(1) n1(2) "2.prems"(2)] by blast
    have gap: "\<And>j. k \<le> j \<Longrightarrow> j < c \<Longrightarrow> childAt m j = None"
    proof -
      fix j assume "k \<le> j" "j < c"
      then have "\<not> j |\<in>| childrenBitset m" using f(3) [of j] by auto
      then show "childAt m j = None" by (simp add: childAt_def valAt_def Test_def)
    qed
    have eq: "childAt n' = (\<lambda>j. if k \<le> j then mergeChild (childAt n j) (childAt m j) else childAt n j)"
    proof
      fix j
      have cn': "childAt n' j = (if c + 1 \<le> j then mergeChild (childAt n1 j) (childAt m j) else childAt n1 j)"
        using n'(2) by (simp add: children_post_def)
      consider "j < k" | "k \<le> j" "j < c" | "j = c" | "c < j" by linarith
      then show "childAt n' j = (if k \<le> j then mergeChild (childAt n j) (childAt m j) else childAt n j)"
      proof cases
        case 1
        then show ?thesis using f(2) by (simp add: cn' n1(4))
      next
        case 2
        then show ?thesis using gap [of j] by (simp add: cn' n1(4) mergeChild_def)
      next
        case 3
        then show ?thesis using f(2) cn' by (simp add: n1(4) mc)
      next
        case 4
        then show ?thesis using f(2) by (simp add: cn' n1(4))
      qed
    qed
    have "children_post n m k n'"
      using n'(2) eq n1(3) by (simp add: children_post_def)
    moreover have "unionChildren n m k = Some n'"
      using ns' gm gn n1(1) n'(1) by (subst unionChildren.simps) simp
    ultimately show ?thesis by blast
  qed
qed

section \<open>Reachable nodes keep the popcount correspondence\<close>

lemma node_inv_prefix_change:
  assumes "node_inv n" "length (prefixes n') = Count (prefixesBitset n')"
    "childrenBitset n' = childrenBitset n" "children n' = children n"
  shows "node_inv n'"
  using assms by (subst node_inv_iff) (simp add: node_inv_iff [of n])

lemma node_inv_deleteChild:
  assumes "node_inv n" "deleteChild n oc = Some n'"
  shows "node_inv n'"
proof -
  have c: "length (children n) = Count (childrenBitset n)" using assms(1) by (simp add: node_inv_iff [of n])
  from deleteChild_effect [OF c, of oc] assms(2)
  have e: "length (children n') = Count (childrenBitset n')"
    "prefixesBitset n' = prefixesBitset n" "prefixes n' = prefixes n"
    "\<forall>c. Test (childrenBitset n') c \<longrightarrow> Test (childrenBitset n) c"
    "set (children n') \<subseteq> set (children n)"
    by auto
  show ?thesis
    using assms(1) e by (subst node_inv_iff) (auto simp: node_inv_iff [of n])
qed

lemma reach_inv:
  "reach n pm cm \<Longrightarrow> node_inv n \<and> pm = prefixAt n \<and> cm = childAt n"
proof (induction rule: reach.induct)
  case fresh
  show ?case
    by (auto simp: newNode_def New_def Count_def Test_def prefixAt_def childAt_def valAt_def)
next
  case (insertIdx n pm cm i v n')
  then have p: "length (prefixes n) = Count (prefixesBitset n)" by (simp add: node_inv_iff [of n])
  from insertIdx_effect [OF p, of i v] insertIdx.hyps(2)
  have e: "prefixAt n' = (prefixAt n)(i \<mapsto> v)" "length (prefixes n') = Count (prefixesBitset n')"
    "childrenBitset n' = childrenBitset n" "children n' = children n" by auto
  show ?case
    using insertIdx.IH e node_inv_prefix_change [OF _ e(2,3,4)] by (simp add: childAt_def)
next
  case (insertPrefix n pm cm oc l i v n')
  then have p: "length (prefixes n) = Count (prefixesBitset n)" by (simp add: node_inv_iff [of n])
  have "insertIdx n i v = Some n'" using insertPrefix.hyps(2,3) by (simp add: insertPrefix_def)
  with insertIdx_effect [OF p, of i v]
  have e: "prefixAt n' = (prefixAt n)(i \<mapsto> v)" "length (prefixes n') = Count (prefixesBitset n')"
    "childrenBitset n' = childrenBitset n" "children n' = children n" by auto
  show ?case
    using insertPrefix.IH e node_inv_prefix_change [OF _ e(2,3,4)] by (simp add: childAt_def)
next
  case (deletePrefix n pm cm oc l i n' r)
  then have p: "length (prefixes n) = Count (prefixesBitset n)" by (simp add: node_inv_iff [of n])
  from deletePrefix_effect [OF p deletePrefix.hyps(2)] deletePrefix.hyps(3)
  have e: "prefixAt n' = (prefixAt n)(i := None)" "length (prefixes n') = Count (prefixesBitset n')"
    "childrenBitset n' = childrenBitset n" "children n' = children n" by auto
  show ?case
    using deletePrefix.IH e node_inv_prefix_change [OF _ e(2,3,4)] by (simp add: childAt_def)
next
  case (updatePrefix n pm cm oc l i cb n' v)
  then have p: "length (prefixes n) = Count (prefixesBitset n)" by (simp add: node_inv_iff [of n])
  from updatePrefix_effect [OF p updatePrefix.hyps(2), of cb] updatePrefix.hyps(3)
  have e: "prefixAt n' = (prefixAt n)(i \<mapsto> v)" "length (prefixes n') = Count (prefixesBitset n')"
    "childrenBitset n' = childrenBitset n" "children n' = children n" by auto
  show ?case
    using updatePrefix.IH e node_inv_prefix_change [OF _ e(2,3,4)] by (simp add: childAt_def)
next
  case (insertChild n pm cm c pm' cm' oc n')
  then have l: "length (children n) = Count (childrenBitset n)" by (simp add: node_inv_iff [of n])
  from insertChild_effect [OF l, of oc c] insertChild.hyps(3)
  have e: "childAt n' = (childAt n)(unat oc \<mapsto> c)"
    "prefixesBitset n' = prefixesBitset n" "prefixes n' = prefixes n" by auto
  have "node_inv n'" using node_inv_insertChild [OF _ _ insertChild.hyps(3)] insertChild.IH by simp
  then show ?case using insertChild.IH e by (simp add: prefixAt_def)
next
  case (deleteChild n pm cm oc n')
  then have l: "length (children n) = Count (childrenBitset n)" by (simp add: node_inv_iff [of n])
  from deleteChild_effect [OF l, of oc] deleteChild.hyps(2)
  have e: "childAt n' = (childAt n)(unat oc := None)"
    "prefixesBitset n' = prefixesBitset n" "prefixes n' = prefixes n" by auto
  have "node_inv n'" using node_inv_deleteChild [OF _ deleteChild.hyps(2)] deleteChild.IH by simp
  then show ?case using deleteChild.IH e by (simp add: prefixAt_def)
next
  case (unionRec n pm cm m pm' cm' n')
  from unionRec_effect [of n m] unionRec.IH unionRec.hyps(3)
  have "union_post n m n'" by auto
  then show ?case using unionRec.IH by (simp add: union_post_def)
next
  case (cloneRec n pm cm)
  then have i: "node_inv n" by simp
  have "map_option cloneRec \<circ> childAt n = childAt n"
  proof
    fix c
    show "(map_option cloneRec \<circ> childAt n) c = childAt n c"
      using childAt_inv [OF i, of c] by (cases "childAt n c") (simp_all add: cloneRec_id)
  qed
  then show ?case using cloneRec.IH by (simp add: cloneRec_id)
qed

text \<open>
  C2.  Every node reachable from a fresh node by \<open>insertIdx\<close>, \<open>insertPrefix\<close>,
  \<open>deletePrefix\<close>, \<open>updatePrefix\<close>, \<open>insertChild\<close>, \<open>deleteChild\<close>,
  \<open>unionRec\<close> and \<open>cloneRec\<close> has \<open>len(prefixes) = popcount(prefixesBitset)\<close> and
  \<open>len(children) = popcount(childrenBitset)\<close>, and so has every node below it
  (\<open>node_inv\<close>); the value stored for a base index is in the slot given by the number
  of set bits below the index, and the child stored for an octet likewise.
\<close>

theorem reachable_popcount:
  assumes "reach n pm cm"
  shows "length (prefixes n) = Count (prefixesBitset n) \<and>
         length (children n) = Count (childrenBitset n) \<and>
         (\<forall>i. pm i = (if Test (prefixesBitset n) i
                       then Some (prefixes n ! slot (prefixesBitset n) i) else None)) \<and>
         (\<forall>c. cm c = (if Test (childrenBitset n) c
                       then Some (children n ! slot (childrenBitset n) c) else None)) \<and>
         node_inv n"
proof -
  from reach_inv [OF assms] have i: "node_inv n" and p: "pm = prefixAt n" and c: "cm = childAt n"
    by simp_all
  show ?thesis
    using i p c by (simp add: node_inv_iff [of n] prefixAt_def childAt_def valAt_def)
qed

theorem reachable_popcount_witness:
  "reach (Node {|3|} {||} [10::nat] []) (Map.empty(3 \<mapsto> 10)) Map.empty \<and>
   length (prefixes (Node {|3|} {||} [10::nat] [])) = Count (prefixesBitset (Node {|3|} {||} [10::nat] [])) \<and>
   length (children (Node {|3|} {||} [10::nat] [])) = Count (childrenBitset (Node {|3|} {||} [10::nat] [])) \<and>
   node_inv (Node {|3|} {||} [10::nat] [])"
proof -
  have s: "insertIdx newNode 3 (10::nat) = Some (Node {|3|} {||} [10] [])"
    by code_simp
  have r: "reach (Node {|3|} {||} [10::nat] []) (Map.empty(3 \<mapsto> 10)) Map.empty"
    using reach.insertIdx [OF reach.fresh s] .
  show ?thesis
    using r reachable_popcount [OF r] by blast
qed

section \<open>Union of two tries\<close>








section \<open>Host routes of a base index\<close>

lemma index_hostMasks: "0 \<le> l \<Longrightarrow> l \<le> 8 \<Longrightarrow> index hostMasks l = Some (hostMasks ! nat l)"
  by (simp add: index_def hostMasks_def)

lemma lowerUpperBound_entry:
  assumes "baseIndexToPrefix b = Some (oc, l)" "entry_ok b (oc, l)"
  shows "lowerUpperBound b = Some (octetToBaseIndex oc, octetToBaseIndex (oc OR hostMasks ! nat l))"
  using assms by (simp add: lowerUpperBound_def index_hostMasks entry_ok_def)

lemma level_pow: "l \<le> 8 \<Longrightarrow> (2::nat) ^ l * 2 ^ (8 - l) = 256"
  by (simp flip: power_add)

lemma lowerUpperBound_closed:
  assumes "1 \<le> b" "b \<le> 511"
  shows "\<exists>k\<le>8. 2 ^ (8 - k) \<le> b \<and> b < 2 * 2 ^ (8 - k) \<and>
           lowerUpperBound b = Some (b * 2 ^ k, b * 2 ^ k + 2 ^ k - 1)"
proof -
  obtain oc l where e: "baseIndexToPrefix b = Some (oc, l)" "entry_ok b (oc, l)"
    using baseIndexToPrefix_entry [OF assms] by blast
  from e(2) have l: "0 \<le> l" "l \<le> 8" and lo: "2 ^ nat l \<le> b" and hi: "b < 2 * 2 ^ nat l"
    and oc: "unat oc = (b - 2 ^ nat l) * 2 ^ (8 - nat l)"
    and m: "unat (oc OR hostMasks ! nat l) = unat oc + 2 ^ (8 - nat l) - 1"
    by (simp_all add: entry_ok_def)
  define k where "k = 8 - nat l"
  have nl: "nat l \<le> 8" using l by simp
  have k: "k \<le> 8" "8 - k = nat l" using nl by (simp_all add: k_def)
  have "unat oc + 256 = (b - 2 ^ nat l) * 2 ^ k + 2 ^ nat l * 2 ^ k"
    using level_pow [OF nl] by (simp add: oc k_def)
  also have "\<dots> = b * 2 ^ k" using lo by (simp flip: add_mult_distrib)
  finally have lower: "unat oc + 256 = b * 2 ^ k" .
  have "unat (oc OR hostMasks ! nat l) + 256 = (unat oc + 256) + 2 ^ k - 1"
    by (simp add: m k_def)
  then have upper: "unat (oc OR hostMasks ! nat l) + 256 = b * 2 ^ k + 2 ^ k - 1"
    using lower by simp
  have "lowerUpperBound b = Some (b * 2 ^ k, b * 2 ^ k + 2 ^ k - 1)"
    using lowerUpperBound_entry [OF e] lower upper
    by (simp add: octetToBaseIndex_def firstHostIndex_def)
  then show ?thesis using k lo hi by auto
qed

lemma div_eq_range:
  fixes h d i :: nat
  assumes "0 < d"
  shows "h div d = i \<longleftrightarrow> i * d \<le> h \<and> h < i * d + d"
proof
  assume "h div d = i"
  then show "i * d \<le> h \<and> h < i * d + d"
    using div_times_less_eq_dividend [of h d] dividend_less_div_times [OF assms, of h]
    by (auto simp: add.commute)
next
  assume "i * d \<le> h \<and> h < i * d + d"
  then show "h div d = i"
    by (intro div_nat_eqI) (simp_all add: mult.commute)
qed

lemma pow2_le_256: "k \<le> 8 \<Longrightarrow> (2::nat) ^ k \<le> 256"
  using power_increasing [of k 8 "2::nat"] by simp

lemma hostRoutes_iff:
  assumes "1 \<le> i" "i \<le> 511"
  shows "h \<in> hostRoutes i \<longleftrightarrow> 256 \<le> h \<and> h \<le> 511 \<and> (\<exists>k\<le>8. h div 2 ^ k = i)"
proof -
  obtain k where k: "k \<le> 8" "2 ^ (8 - k) \<le> i" "i < 2 * 2 ^ (8 - k)"
      "lowerUpperBound i = Some (i * 2 ^ k, i * 2 ^ k + 2 ^ k - 1)"
    using lowerUpperBound_closed [OF assms] by blast
  have p: "(2::nat) ^ (8 - k) * 2 ^ k = 256" using k(1) by (simp flip: power_add)
  have lo256: "256 \<le> i * 2 ^ k"
    using mult_le_mono1 [OF k(2), of "2 ^ k"] p by simp
  have "Suc i \<le> 2 * 2 ^ (8 - k)" using k(3) by simp
  from mult_le_mono1 [OF this, of "2 ^ k"] have hi512: "i * 2 ^ k + 2 ^ k \<le> 512"
    using p by (simp add: algebra_simps)
  have pos: "1 \<le> (2::nat) ^ k" by simp
  have "h \<le> i * 2 ^ k + 2 ^ k - 1 \<longleftrightarrow> h < i * 2 ^ k + 2 ^ k"
    using pos by linarith
  then have mem: "h \<in> hostRoutes i \<longleftrightarrow> i * 2 ^ k \<le> h \<and> h < i * 2 ^ k + 2 ^ k"
    by (simp add: hostRoutes_def k(4))
  show ?thesis
  proof
    assume "h \<in> hostRoutes i"
    then have r: "i * 2 ^ k \<le> h" "h < i * 2 ^ k + 2 ^ k" using mem by simp_all
    then have "h div 2 ^ k = i" by (simp add: div_eq_range)
    then show "256 \<le> h \<and> h \<le> 511 \<and> (\<exists>k\<le>8. h div 2 ^ k = i)"
      using r lo256 hi512 k(1) by auto
  next
    assume a: "256 \<le> h \<and> h \<le> 511 \<and> (\<exists>k\<le>8. h div 2 ^ k = i)"
    then obtain k' where k': "k' \<le> 8" "h div 2 ^ k' = i" by blast
    have r': "i * 2 ^ k' \<le> h" "h < i * 2 ^ k' + 2 ^ k'"
      using k'(2) div_eq_range [of "2 ^ k'" h i] by simp_all
    have "k' = k"
    proof (rule ccontr)
      assume "k' \<noteq> k"
      then consider "k' < k" | "k < k'" by linarith
      then show False
      proof cases
        case 1
        have "Suc i * 2 ^ k' \<le> (2 * 2 ^ (8 - k)) * 2 ^ k'"
          using k(3) by (intro mult_le_mono1) simp
        also have "\<dots> = 2 ^ (9 - k + k')" using k(1) by (simp flip: power_add power_Suc add: Suc_diff_le)
        also have "\<dots> \<le> 2 ^ 8" using 1 k(1) by (intro power_increasing) auto
        finally show False using r'(2) a by simp
      next
        case 2
        have "(2::nat) ^ 9 \<le> 2 ^ (8 - k + k')" using 2 k'(1) by (intro power_increasing) auto
        also have "\<dots> = 2 ^ (8 - k) * 2 ^ k'" by (simp add: power_add)
        also have "\<dots> \<le> i * 2 ^ k'" using k(2) by (intro mult_le_mono1)
        finally show False using r'(1) a by simp
      qed
    qed
    then show "h \<in> hostRoutes i" using r' mem by simp
  qed
qed

lemma and_mask_zero_mod: "(w::octet) AND mask k = 0 \<Longrightarrow> unat w mod 2 ^ k = 0"
proof -
  assume "w AND mask k = 0"
  then have "take_bit k w = 0" by (simp add: take_bit_eq_mask)
  then have "unat (take_bit k w) = unat (0::octet)" by (simp only:)
  then have "take_bit k (unat w) = 0" by (simp only: unsigned_take_bit_eq unsigned_0)
  then show ?thesis by (simp only: take_bit_eq_mod)
qed

lemma hostMasks_mask: "l \<le> 8 \<Longrightarrow> hostMasks ! l = mask (8 - l)"
proof -
  assume "l \<le> 8"
  then consider "l = 0" | "l = 1" | "l = 2" | "l = 3" | "l = 4" | "l = 5" | "l = 6" | "l = 7" | "l = 8"
    by linarith
  then show ?thesis
    by cases (simp_all add: hostMasks_def mask_eq_exp_minus_1)
qed

lemma canonical_entry:
  assumes "0 \<le> l" "l \<le> 8" "oc AND hostMasks ! nat l = 0" "prefixToBaseIndex oc l = Some p"
  shows "1 \<le> p \<and> p \<le> 511 \<and> baseIndexToPrefix p = Some (oc, l)"
proof -
  define k where "k = 8 - nat l"
  have nl: "nat l \<le> 8" using assms(1,2) by simp
  have kk: "nat (8 - l) = k" using assms(1,2) by (simp add: k_def)
  have "unat (drop_bit k oc) = drop_bit k (unat oc)" by (simp add: unat_drop_bit_eq)
  then have p: "p = unat oc div 2 ^ k + 2 ^ nat l"
    using assms(1,2,4) kk
    by (simp add: prefixToBaseIndex_def strideLen_def drop_bit_eq_div push_bit_eq_mult)
  have "unat oc < 256" using unsigned_less [of oc, where 'a = nat] by simp
  also have "\<dots> = 2 ^ nat l * 2 ^ k" using level_pow [OF nl] by (simp add: k_def)
  finally have q: "unat oc div 2 ^ k < 2 ^ nat l"
    by (simp add: less_mult_imp_div_less mult.commute)
  have lo: "2 ^ nat l \<le> p" and hi: "p < 2 * 2 ^ nat l" using p q by simp_all
  have "(2::nat) ^ nat l \<le> 256" using nl by (rule pow2_le_256)
  then have b: "1 \<le> p" "p \<le> 511" using lo hi by simp_all
  obtain oc' l' where e: "baseIndexToPrefix p = Some (oc', l')" "entry_ok p (oc', l')"
    using baseIndexToPrefix_entry [OF b] by blast
  from e(2) have l': "0 \<le> l'" "l' \<le> 8" and lo': "2 ^ nat l' \<le> p" and hi': "p < 2 * 2 ^ nat l'"
    and oc': "unat oc' = (p - 2 ^ nat l') * 2 ^ (8 - nat l')"
    by (simp_all add: entry_ok_def)
  have "nat l' = nat l"
  proof (rule ccontr)
    assume "nat l' \<noteq> nat l"
    then consider "nat l' < nat l" | "nat l < nat l'" by linarith
    then show False
    proof cases
      case 1
      then have "(2::nat) ^ Suc (nat l') \<le> 2 ^ nat l" by (intro power_increasing) auto
      then show False using hi' lo by simp
    next
      case 2
      then have "(2::nat) ^ Suc (nat l) \<le> 2 ^ nat l'" by (intro power_increasing) auto
      then show False using hi lo' by simp
    qed
  qed
  then have ll: "l' = l" using assms(1) l'(1) by simp
  have "unat oc mod 2 ^ k = 0"
    using assms(3) hostMasks_mask [OF nl] by (simp add: and_mask_zero_mod k_def)
  then have "unat oc = unat oc div 2 ^ k * 2 ^ k"
    by (metis add.right_neutral div_mult_mod_eq)
  then have "unat oc' = unat oc" using oc' p ll by (simp add: k_def)
  then have "oc' = oc" by (simp add: word_unat_eq_iff)
  then show ?thesis using b e(1) ll by simp
qed

lemma hostRoutes_bounds:
  assumes "1 \<le> i" "i \<le> 511"
  shows "\<exists>lo hi. lowerUpperBound i = Some (lo, hi) \<and> lo \<le> hi \<and> hostRoutes i = {lo..hi}"
proof -
  obtain k where k: "lowerUpperBound i = Some (i * 2 ^ k, i * 2 ^ k + 2 ^ k - 1)"
    using lowerUpperBound_closed [OF assms] by blast
  have "1 \<le> (2::nat) ^ k" by simp
  then have "i * 2 ^ k \<le> i * 2 ^ k + 2 ^ k - 1" by linarith
  then show ?thesis using k by (simp add: hostRoutes_def)
qed

lemma overlapsRoutes_spec:
  "(\<forall>i. Test b i \<longrightarrow> start \<le> i \<longrightarrow> 1 \<le> i \<and> i \<le> 511) \<Longrightarrow>
   overlapsRoutes b lo hi start = Some (\<exists>i. Test b i \<and> start \<le> i \<and> hostRoutes i \<subseteq> {lo..hi})"
proof (induction b lo hi start rule: overlapsRoutes.induct)
  case (1 b lo hi start)
  obtain r ok where ns: "NextSet b start = (r, ok)" by (cases "NextSet b start")
  show ?case
  proof (cases ok)
    case False
    have ns': "NextSet b start = (r, False)" using ns False by simp
    have "\<not> (\<exists>i. Test b i \<and> start \<le> i \<and> hostRoutes i \<subseteq> {lo..hi})"
      using NextSet_none(2) [OF ns'] by (fastforce simp: Test_def)
    then show ?thesis using ns' by (subst overlapsRoutes.simps) simp
  next
    case True
    have ns': "NextSet b start = (r, True)" using ns True by simp
    note f = NextSet_found [OF ns']
    have tr: "Test b r" using f(1) by (simp add: Test_def)
    have vr: "1 \<le> r" "r \<le> 511" using "1.prems" tr f(2) by auto
    obtain rl ru where b: "lowerUpperBound r = Some (rl, ru)" "rl \<le> ru" "hostRoutes r = {rl..ru}"
      using hostRoutes_bounds [OF vr] by blast
    have sub: "hostRoutes r \<subseteq> {lo..hi} \<longleftrightarrow> lo \<le> rl \<and> ru \<le> hi"
      using b(2,3) by auto
    show ?thesis
    proof (cases "lo \<le> rl \<and> ru \<le> hi")
      case True
      then have "\<exists>i. Test b i \<and> start \<le> i \<and> hostRoutes i \<subseteq> {lo..hi}"
        using tr f(2) sub by blast
      then show ?thesis using ns' b(1) True by (subst overlapsRoutes.simps) simp
    next
      case False
      have nn: "\<not> \<not> ok" using \<open>ok\<close> by simp
      have pr: "(rl, ru) = (rl, ru)" by simp
      have ih: "overlapsRoutes b lo hi (r + 1) =
                  Some (\<exists>i. Test b i \<and> r + 1 \<le> i \<and> hostRoutes i \<subseteq> {lo..hi})"
        using "1.IH" [OF ns [symmetric] nn b(1) pr] False "1.prems" f(2) by auto
      have "(\<exists>i. Test b i \<and> r + 1 \<le> i \<and> hostRoutes i \<subseteq> {lo..hi}) \<longleftrightarrow>
            (\<exists>i. Test b i \<and> start \<le> i \<and> hostRoutes i \<subseteq> {lo..hi})"
      proof
        assume "\<exists>i. Test b i \<and> r + 1 \<le> i \<and> hostRoutes i \<subseteq> {lo..hi}"
        then show "\<exists>i. Test b i \<and> start \<le> i \<and> hostRoutes i \<subseteq> {lo..hi}"
          using f(2) by (meson le_trans le_add1 add_leD1)
      next
        assume "\<exists>i. Test b i \<and> start \<le> i \<and> hostRoutes i \<subseteq> {lo..hi}"
        then obtain i where i: "Test b i" "start \<le> i" "hostRoutes i \<subseteq> {lo..hi}" by blast
        have "r \<le> i" using f(3) [of i] i(1,2) by (simp add: Test_def)
        moreover have "i \<noteq> r" using i(3) sub False by auto
        ultimately show "\<exists>i. Test b i \<and> r + 1 \<le> i \<and> hostRoutes i \<subseteq> {lo..hi}"
          using i by (intro exI [of _ i]) simp
      qed
      moreover have c: "(pfxl \<le> rl \<and> ru \<le> pfxu) = False" if "pfxl = lo" "pfxu = hi" for pfxl pfxu
        using False that by simp
      ultimately show ?thesis using ns' b(1) ih by (subst overlapsRoutes.simps) (simp add: c)
    qed
  qed
qed

lemma overlapsChildren_spec:
  "overlapsChildren b lo hi start =
     (\<exists>c. Test b c \<and> start \<le> c \<and> lo \<le> c + firstHostIndex \<and> c + firstHostIndex \<le> hi)"
proof (induction b lo hi start rule: overlapsChildren.induct)
  case (1 b lo hi start)
  obtain r ok where ns: "NextSet b start = (r, ok)" by (cases "NextSet b start")
  show ?case
  proof (cases ok)
    case False
    have ns': "NextSet b start = (r, False)" using ns False by simp
    have "\<not> (\<exists>c. Test b c \<and> start \<le> c \<and> lo \<le> c + firstHostIndex \<and> c + firstHostIndex \<le> hi)"
      using NextSet_none(2) [OF ns'] by (fastforce simp: Test_def)
    then show ?thesis using ns' by (subst overlapsChildren.simps) simp
  next
    case True
    have ns': "NextSet b start = (r, True)" using ns True by simp
    note f = NextSet_found [OF ns']
    have tr: "Test b r" using f(1) by (simp add: Test_def)
    show ?thesis
    proof (cases "lo \<le> r + firstHostIndex \<and> r + firstHostIndex \<le> hi")
      case True
      then have "\<exists>c. Test b c \<and> start \<le> c \<and> lo \<le> c + firstHostIndex \<and> c + firstHostIndex \<le> hi"
        using tr f(2) by blast
      then show ?thesis using ns' True by (subst overlapsChildren.simps) simp
    next
      case False
      have nn: "\<not> \<not> ok" using \<open>ok\<close> by simp
      have ih: "overlapsChildren b lo hi (r + 1) =
          (\<exists>c. Test b c \<and> r + 1 \<le> c \<and> lo \<le> c + firstHostIndex \<and> c + firstHostIndex \<le> hi)"
        using "1.IH" [OF ns [symmetric] nn] False by auto
      have "(\<exists>c. Test b c \<and> r + 1 \<le> c \<and> lo \<le> c + firstHostIndex \<and> c + firstHostIndex \<le> hi) \<longleftrightarrow>
            (\<exists>c. Test b c \<and> start \<le> c \<and> lo \<le> c + firstHostIndex \<and> c + firstHostIndex \<le> hi)"
      proof
        assume "\<exists>c. Test b c \<and> r + 1 \<le> c \<and> lo \<le> c + firstHostIndex \<and> c + firstHostIndex \<le> hi"
        then show "\<exists>c. Test b c \<and> start \<le> c \<and> lo \<le> c + firstHostIndex \<and> c + firstHostIndex \<le> hi"
          using f(2) by (meson le_trans le_add1 add_leD1)
      next
        assume "\<exists>c. Test b c \<and> start \<le> c \<and> lo \<le> c + firstHostIndex \<and> c + firstHostIndex \<le> hi"
        then obtain c where c: "Test b c" "start \<le> c" "lo \<le> c + firstHostIndex"
          "c + firstHostIndex \<le> hi" by blast
        have "r \<le> c" using f(3) [of c] c(1,2) by (simp add: Test_def)
        moreover have "c \<noteq> r" using c(3,4) False by auto
        ultimately show "\<exists>c. Test b c \<and> r + 1 \<le> c \<and> lo \<le> c + firstHostIndex \<and> c + firstHostIndex \<le> hi"
          using c by (intro exI [of _ c]) simp
      qed
      moreover have c: "(pfxl \<le> r + firstHostIndex \<and> r + firstHostIndex \<le> pfxu) = False"
        if "pfxl = lo" "pfxu = hi" for pfxl pfxu
        using False that by simp
      ultimately show ?thesis using ns' ih by (subst overlapsChildren.simps) (simp add: c)
    qed
  qed
qed

section \<open>Overlap of a node with a prefix\<close>

lemma shift_bound:
  fixes h :: nat
  assumes "1 \<le> h div 2 ^ k" "h \<le> 511"
  shows "k \<le> 8"
proof (rule ccontr)
  assume "\<not> k \<le> 8"
  then have "(2::nat) ^ 9 \<le> 2 ^ k" by (intro power_increasing) auto
  then have "h < 2 ^ k" using assms(2) by simp
  then show False using assms(1) by simp
qed

lemma hostRoutes_nonempty:
  assumes "1 \<le> i" "i \<le> 511"
  shows "\<exists>h. h \<in> hostRoutes i"
  using hostRoutes_bounds [OF assms] by auto

lemma hostRoutes_meet:
  assumes i: "1 \<le> i" "i \<le> 511" and p: "1 \<le> p" "p \<le> 511"
  shows "hostRoutes i \<inter> hostRoutes p \<noteq> {} \<longleftrightarrow>
           (\<exists>j. drop_bit j p = i) \<or> (2 * p \<le> i \<and> hostRoutes i \<subseteq> hostRoutes p)"
proof
  assume "hostRoutes i \<inter> hostRoutes p \<noteq> {}"
  then obtain h where h: "h \<in> hostRoutes i" "h \<in> hostRoutes p" by blast
  from h(1) obtain ki where ki: "256 \<le> h" "h \<le> 511" "ki \<le> 8" "h div 2 ^ ki = i"
    using hostRoutes_iff [OF i] by blast
  from h(2) obtain kp where kp: "kp \<le> 8" "h div 2 ^ kp = p"
    using hostRoutes_iff [OF p] by blast
  show "(\<exists>j. drop_bit j p = i) \<or> (2 * p \<le> i \<and> hostRoutes i \<subseteq> hostRoutes p)"
  proof (cases "kp \<le> ki")
    case True
    have "h div 2 ^ (kp + (ki - kp)) = (h div 2 ^ kp) div 2 ^ (ki - kp)"
      by (simp only: power_add div_mult2_eq)
    then have "drop_bit (ki - kp) p = i" using True ki(4) kp(2) by (simp add: drop_bit_eq_div)
    then show ?thesis by blast
  next
    case False
    define d where "d = kp - ki"
    have d: "kp = ki + d" "1 \<le> d" using False by (simp_all add: d_def)
    have pd: "i div 2 ^ d = p"
      using ki(4) kp(2) unfolding d(1) by (simp only: power_add div_mult2_eq)
    have le1: "p * 2 ^ d \<le> i" using pd div_times_less_eq_dividend [of i "2 ^ d"] by simp
    have "(2::nat) ^ 1 \<le> 2 ^ d" using d(2) by (intro power_increasing) auto
    then have "(2::nat) \<le> 2 ^ d" by simp
    then have "p * 2 \<le> p * 2 ^ d" by (rule mult_le_mono2)
    then have two: "2 * p \<le> i" using le1 by linarith
    have "hostRoutes i \<subseteq> hostRoutes p"
    proof
      fix h' assume "h' \<in> hostRoutes i"
      then obtain k' where k': "256 \<le> h'" "h' \<le> 511" "k' \<le> 8" "h' div 2 ^ k' = i"
        using hostRoutes_iff [OF i] by blast
      have e: "h' div 2 ^ (k' + d) = p"
        using k'(4) pd by (simp only: power_add div_mult2_eq)
      then have "k' + d \<le> 8" using shift_bound [of h' "k' + d"] p(1) k'(2) by simp
      then show "h' \<in> hostRoutes p" using hostRoutes_iff [OF p] k'(1,2) e by blast
    qed
    then show ?thesis using two by blast
  qed
next
  assume a: "(\<exists>j. drop_bit j p = i) \<or> (2 * p \<le> i \<and> hostRoutes i \<subseteq> hostRoutes p)"
  then show "hostRoutes i \<inter> hostRoutes p \<noteq> {}"
  proof
    assume "\<exists>j. drop_bit j p = i"
    then obtain j where j: "p div 2 ^ j = i" by (auto simp: drop_bit_eq_div)
    obtain h where h: "h \<in> hostRoutes p" using hostRoutes_nonempty [OF p] by blast
    then obtain kp where kp: "256 \<le> h" "h \<le> 511" "kp \<le> 8" "h div 2 ^ kp = p"
      using hostRoutes_iff [OF p] by blast
    have e: "h div 2 ^ (kp + j) = i"
      using kp(4) j by (simp only: power_add div_mult2_eq)
    then have "kp + j \<le> 8" using shift_bound [of h "kp + j"] i(1) kp(2) by simp
    then have "h \<in> hostRoutes i" using hostRoutes_iff [OF i] kp(1,2) e by blast
    then show ?thesis using h by blast
  next
    assume "2 * p \<le> i \<and> hostRoutes i \<subseteq> hostRoutes p"
    then show ?thesis using hostRoutes_nonempty [OF i] by blast
  qed
qed

lemma lpmByIndex_ok:
  assumes "length (prefixes n) = Count (prefixesBitset n)"
  shows "\<exists>i v. lpmByIndex n p = Some (i, v, \<exists>j. Test (prefixesBitset n) (drop_bit j p))"
proof (cases "\<exists>j. Test (prefixesBitset n) (drop_bit j p)")
  case True
  then obtain k where "Test (prefixesBitset n) (drop_bit k p)"
      "\<forall>j<k. \<not> Test (prefixesBitset n) (drop_bit j p)"
    using first_set_in_chain by blast
  from lpmByIndex_found [OF assms this] True show ?thesis by simp
next
  case False
  then show ?thesis using lpmByIndex_not_found [of n p] by simp
qed

lemma hostRoutes_octetRange:
  assumes "1 \<le> i" "i \<le> 511" "baseIndexToPrefix i = Some (oi, li)"
  shows "hostRoutes i = (\<lambda>x. x + 256) ` octetRange oi li"
proof -
  obtain oc l where e: "baseIndexToPrefix i = Some (oc, l)" "entry_ok i (oc, l)"
    using baseIndexToPrefix_entry [OF assms(1,2)] by blast
  then have "entry_ok i (oi, li)" using assms(3) by simp
  from lowerUpperBound_entry [OF assms(3) this]
  have "hostRoutes i = {unat oi + 256 .. unat (oi OR hostMasks ! nat li) + 256}"
    by (simp add: hostRoutes_def octetToBaseIndex_def firstHostIndex_def)
  also have "\<dots> = (\<lambda>x. x + 256) ` octetRange oi li"
    unfolding octetRange_def by (rule image_add_atLeastAtMost' [symmetric])
  finally show ?thesis .
qed

lemma inter_image_add:
  fixes A B :: "nat set"
  shows "(\<lambda>x. x + k) ` A \<inter> (\<lambda>x. x + k) ` B \<noteq> {} \<longleftrightarrow> A \<inter> B \<noteq> {}"
  by auto

text \<open>
  C4, as amended.  For a prefix length in \<open>[0, 8]\<close> and an octet in canonical (masked)
  form, \<open>octet & hostMasks[len] = 0\<close>, on a node whose prefix slice matches its bit set
  and whose base indices are in \<open>[1, 511]\<close>: \<open>overlapsPrefix\<close> returns \<open>true\<close> if and
  only if some stored prefix or some child of the node covers an octet of the range
  \<open>[octet, octet | (0xFF >> len)]\<close>.
\<close>

theorem overlapsPrefix_canonical:
  assumes "0 \<le> l" "l \<le> 8" "oc AND hostMasks ! nat l = 0"
    "length (prefixes n) = Count (prefixesBitset n)"
    "fset (prefixesBitset n) \<subseteq> {1..511}"
  shows "overlapsPrefix n oc l = Some (overlapsPrefix_spec n oc l)"
proof -
  let ?pb = "prefixesBitset n" and ?cb = "childrenBitset n"
  have valid: "\<And>i. Test ?pb i \<Longrightarrow> 1 \<le> i \<and> i \<le> 511"
    using assms(5) by (auto simp: Test_def)
  obtain p where p: "prefixToBaseIndex oc l = Some p"
    using prefixToBaseIndex_Some [OF assms(1,2)] by blast
  from canonical_entry [OF assms(1,2,3) p]
  have pv: "1 \<le> p" "p \<le> 511" and pe: "baseIndexToPrefix p = Some (oc, l)" by simp_all
  define lo where "lo = unat oc + firstHostIndex"
  define hi where "hi = octetToBaseIndex (oc OR hostMasks ! nat l)"
  have last: "lastHostIndexOfPrefix oc l = Some hi"
    using assms(1,2) by (simp add: lastHostIndexOfPrefix_def index_hostMasks hi_def)
  have rp: "hostRoutes p = (\<lambda>x. x + 256) ` octetRange oc l"
    using hostRoutes_octetRange [OF pv pe] .
  have rp': "hostRoutes p = {lo..hi}"
    unfolding rp octetRange_def lo_def hi_def octetToBaseIndex_def firstHostIndex_def
    by (rule image_add_atLeastAtMost')
  define A where "A = (\<exists>j. Test ?pb (drop_bit j p))"
  define B where "B = (\<exists>i. Test ?pb i \<and> push_bit 1 p \<le> i \<and> hostRoutes i \<subseteq> {lo..hi})"
  define C where "C = (\<exists>c. Test ?cb c \<and> unat oc \<le> c \<and> lo \<le> c + firstHostIndex \<and> c + firstHostIndex \<le> hi)"
  obtain i0 v0 where lpm: "lpmByIndex n p = Some (i0, v0, A)"
    using lpmByIndex_ok [OF assms(4), of p] unfolding A_def by blast
  have routes: "overlapsRoutes ?pb lo hi (push_bit 1 p) = Some B"
    unfolding B_def using valid by (intro overlapsRoutes_spec) blast
  have kids: "overlapsChildren ?cb lo hi (unat oc) = C"
    unfolding C_def by (rule overlapsChildren_spec)
  have run: "overlapsPrefix n oc l = Some (A \<or> B \<or> C)"
    using p lpm last routes kids
    by (cases A; cases B) (simp_all add: overlapsPrefix_def lo_def [symmetric])
  have part1: "(\<exists>i oi li. Test ?pb i \<and> baseIndexToPrefix i = Some (oi, li) \<and>
                 octetRange oi li \<inter> octetRange oc l \<noteq> {}) \<longleftrightarrow> A \<or> B"
  proof -
    have "(\<exists>i oi li. Test ?pb i \<and> baseIndexToPrefix i = Some (oi, li) \<and>
                 octetRange oi li \<inter> octetRange oc l \<noteq> {}) \<longleftrightarrow>
          (\<exists>i. Test ?pb i \<and> hostRoutes i \<inter> hostRoutes p \<noteq> {})"
    proof (intro iffI; elim exE conjE)
      fix i oi li
      assume a: "Test ?pb i" "baseIndexToPrefix i = Some (oi, li)"
        "octetRange oi li \<inter> octetRange oc l \<noteq> {}"
      have "hostRoutes i = (\<lambda>x. x + 256) ` octetRange oi li"
        using hostRoutes_octetRange [OF _ _ a(2)] valid [OF a(1)] by simp
      then have "hostRoutes i \<inter> hostRoutes p \<noteq> {}"
        unfolding rp using a(3) inter_image_add [of 256 "octetRange oi li" "octetRange oc l"]
        by blast
      then show "\<exists>i. Test ?pb i \<and> hostRoutes i \<inter> hostRoutes p \<noteq> {}" using a(1) by blast
    next
      fix i
      assume a: "Test ?pb i" "hostRoutes i \<inter> hostRoutes p \<noteq> {}"
      have v: "1 \<le> i" "i \<le> 511" using valid [OF a(1)] by simp_all
      obtain oi li where e: "baseIndexToPrefix i = Some (oi, li)"
        using baseIndexToPrefix_entry [OF v] by blast
      have "hostRoutes i = (\<lambda>x. x + 256) ` octetRange oi li"
        using hostRoutes_octetRange [OF v e] .
      then have "octetRange oi li \<inter> octetRange oc l \<noteq> {}"
        using a(2) inter_image_add [of 256 "octetRange oi li" "octetRange oc l"]
        unfolding rp by blast
      then show "\<exists>i oi li. Test ?pb i \<and> baseIndexToPrefix i = Some (oi, li) \<and>
                 octetRange oi li \<inter> octetRange oc l \<noteq> {}"
        using a(1) e by blast
    qed
    also have "\<dots> \<longleftrightarrow> (\<exists>i. Test ?pb i \<and>
        ((\<exists>j. drop_bit j p = i) \<or> (2 * p \<le> i \<and> hostRoutes i \<subseteq> hostRoutes p)))"
      using hostRoutes_meet [OF _ _ pv] valid by blast
    also have "\<dots> \<longleftrightarrow> A \<or> B"
      unfolding A_def B_def rp' by (auto simp: push_bit_eq_mult mult.commute)
    finally show ?thesis .
  qed
  have part2: "(\<exists>c. Test ?cb c \<and> c \<in> octetRange oc l) \<longleftrightarrow> C"
    unfolding C_def octetRange_def lo_def hi_def octetToBaseIndex_def by auto
  have "overlapsPrefix_spec n oc l \<longleftrightarrow> A \<or> B \<or> C"
    unfolding overlapsPrefix_spec_def part1 part2 by blast
  then show ?thesis using run by simp
qed

theorem overlapsPrefix_canonical_witness:
  "(0::int) \<le> 6 \<and> (6::int) \<le> 8 \<and> (4::octet) AND hostMasks ! nat 6 = 0 \<and>
   length (prefixes (Node {|130|} {||} [1::nat] [])) = Count (prefixesBitset (Node {|130|} {||} [1::nat] [])) \<and>
   fset (prefixesBitset (Node {|130|} {||} [1::nat] [])) \<subseteq> {1..511} \<and>
   overlapsPrefix (Node {|130|} {||} [1::nat] []) 4 6 =
     Some (overlapsPrefix_spec (Node {|130|} {||} [1::nat] []) 4 6)"
proof -
  have h3: "(4::octet) AND hostMasks ! nat 6 = 0" by (simp add: hostMasks_def)
  have h4: "length (prefixes (Node {|130|} {||} [1::nat] [])) =
            Count (prefixesBitset (Node {|130|} {||} [1::nat] []))"
    by (simp add: Count_def)
  have h5: "fset (prefixesBitset (Node {|130|} {||} [1::nat] [])) \<subseteq> {1..511}" by simp
  show ?thesis
    using h3 h4 h5 overlapsPrefix_canonical [OF _ _ h3 h4 h5] by simp
qed

text \<open>
  C4 as stated fails for an octet that is not masked: the node holding the prefix
  \<open>4/7\<close> (base index 130, octets 4 to 5) and the supplied prefix \<open>5/6\<close> (octets 5 to
  7) share octet 5, and \<open>overlapsPrefix\<close> returns \<open>false\<close>.
\<close>

theorem overlapsPrefix_unmasked_counterexample:
  "overlapsPrefix (Node {|130|} {||} [1::nat] []) 5 6 = Some False \<and>
   overlapsPrefix_spec (Node {|130|} {||} [1::nat] []) 5 6"
proof
  show "overlapsPrefix (Node {|130|} {||} [1::nat] []) 5 6 = Some False"
    by code_simp
  have e: "baseIndexToPrefix 130 = Some (4, 7)" by code_simp
  have r1: "5 \<in> octetRange 4 7" by (simp add: octetRange_def hostMasks_def)
  have r2: "5 \<in> octetRange 5 6" by (simp add: octetRange_def hostMasks_def)
  have "Test (prefixesBitset (Node {|130|} {||} [1::nat] [])) 130" by (simp add: Test_def)
  then show "overlapsPrefix_spec (Node {|130|} {||} [1::nat] []) 5 6"
    unfolding overlapsPrefix_spec_def using e r1 r2 by blast
qed

section \<open>The zig-zag loops of overlapsRec\<close>

lemma allotRange_spec:
  "hi < maxNodePrefixes \<Longrightarrow>
   \<exists>mine'. allotRange other mine lo hi = Some ((\<exists>h. lo \<le> h \<and> h \<le> hi \<and> other h), mine') \<and>
      ((\<forall>h. lo \<le> h \<and> h \<le> hi \<longrightarrow> \<not> other h) \<longrightarrow> mine' = (\<lambda>h. mine h \<or> (lo \<le> h \<and> h \<le> hi)))"
proof (induction other mine lo hi rule: allotRange.induct)
  case (1 other mine i upperBound)
  show ?case
  proof (cases "i \<le> upperBound")
    case False
    then have "\<not> (\<exists>h. i \<le> h \<and> h \<le> upperBound \<and> other h)" by auto
    moreover have "mine = (\<lambda>h. mine h \<or> (i \<le> h \<and> h \<le> upperBound))" using False by auto
    ultimately show ?thesis using False by (subst allotRange.simps) auto
  next
    case True
    then have lt: "i < maxNodePrefixes" using "1.prems" by simp
    show ?thesis
    proof (cases "other i")
      case o: True
      then have "\<exists>h. i \<le> h \<and> h \<le> upperBound \<and> other h" using True by blast
      then show ?thesis using True lt o by (subst allotRange.simps) auto
    next
      case o: False
      from "1.IH" [OF True lt o "1.prems"] obtain mine' where
        m: "allotRange other (mine(i := True)) (i + 1) upperBound =
              Some ((\<exists>h. i + 1 \<le> h \<and> h \<le> upperBound \<and> other h), mine')"
           "(\<forall>h. i + 1 \<le> h \<and> h \<le> upperBound \<longrightarrow> \<not> other h) \<longrightarrow>
              mine' = (\<lambda>h. (mine(i := True)) h \<or> (i + 1 \<le> h \<and> h \<le> upperBound))"
        by blast
      have e: "(\<exists>h. i + 1 \<le> h \<and> h \<le> upperBound \<and> other h) \<longleftrightarrow>
               (\<exists>h. i \<le> h \<and> h \<le> upperBound \<and> other h)"
      proof
        assume "\<exists>h. i + 1 \<le> h \<and> h \<le> upperBound \<and> other h"
        then obtain h where "i + 1 \<le> h" "h \<le> upperBound" "other h" by blast
        then show "\<exists>h. i \<le> h \<and> h \<le> upperBound \<and> other h" by (intro exI [of _ h]) simp
      next
        assume "\<exists>h. i \<le> h \<and> h \<le> upperBound \<and> other h"
        then obtain h where h: "i \<le> h" "h \<le> upperBound" "other h" by blast
        then have "h \<noteq> i" using o by auto
        then show "\<exists>h. i + 1 \<le> h \<and> h \<le> upperBound \<and> other h"
          using h by (intro exI [of _ h]) simp
      qed
      have run: "allotRange other mine i upperBound =
                   Some ((\<exists>h. i \<le> h \<and> h \<le> upperBound \<and> other h), mine')"
        using True lt o m(1) e by (subst allotRange.simps) simp
      have "mine' = (\<lambda>h. mine h \<or> (i \<le> h \<and> h \<le> upperBound))"
        if n: "\<forall>h. i \<le> h \<and> h \<le> upperBound \<longrightarrow> \<not> other h"
      proof -
        have "\<forall>h. i + 1 \<le> h \<and> h \<le> upperBound \<longrightarrow> \<not> other h" using n by auto
        then have "mine' = (\<lambda>h. (mine(i := True)) h \<or> (i + 1 \<le> h \<and> h \<le> upperBound))"
          using m(2) by blast
        also have "\<dots> = (\<lambda>h. mine h \<or> (i \<le> h \<and> h \<le> upperBound))"
          using True by (intro ext) auto
        finally show ?thesis .
      qed
      then show ?thesis using run by blast
    qed
  qed
qed

lemma hostRoutes_le_511:
  assumes "1 \<le> i" "i \<le> 511" "h \<in> hostRoutes i"
  shows "h \<le> 511"
  using hostRoutes_iff [OF assms(1,2)] assms(3) by blast

lemma routesStep_spec:
  assumes valid: "fset b \<subseteq> {1..511}" and mine: "mine = allotted b ok idx"
  shows "\<exists>hit mine' ok' idx'. routesStep b other mine ok idx = Some (hit, mine', ok', idx') \<and>
           (hit \<longrightarrow> (\<exists>h. allotment b h \<and> other h)) \<and>
           (\<not> hit \<longrightarrow> mine' = allotted b ok' idx' \<and> (\<forall>h. mine' h \<and> other h \<longrightarrow> mine h))"
proof (cases ok)
  case False
  then have "routesStep b other mine ok idx = Some (False, mine, ok, idx)"
    by (simp add: routesStep_def)
  then show ?thesis using mine by blast
next
  case True
  obtain i found where ns: "NextSet b idx = (i, found)" by (cases "NextSet b idx")
  show ?thesis
  proof (cases found)
    case False
    have ns': "NextSet b idx = (i, False)" using ns False by simp
    have "allotted b True idx = allotted b False i"
      using NextSet_none(2) [OF ns'] by (auto simp: allotted_def Test_def fun_eq_iff)
    then have "mine = allotted b False i" using mine True by simp
    moreover have "routesStep b other mine ok idx = Some (False, mine, False, i)"
      using True ns' by (simp add: routesStep_def)
    ultimately show ?thesis by blast
  next
    case f: True
    have ns': "NextSet b idx = (i, True)" using ns f by simp
    note nf = NextSet_found [OF ns']
    have ti: "Test b i" using nf(1) by (simp add: Test_def)
    have vi: "1 \<le> i" "i \<le> 511" using valid nf(1) by auto
    obtain lo hi where lu: "lowerUpperBound i = Some (lo, hi)" "lo \<le> hi" "hostRoutes i = {lo..hi}"
      using hostRoutes_bounds [OF vi] by blast
    have "hi \<in> hostRoutes i" using lu(2,3) by simp
    then have "hi \<le> 511" by (rule hostRoutes_le_511 [OF vi])
    then have "hi < maxNodePrefixes" by (simp add: maxNodePrefixes_def)
    from allotRange_spec [OF this, of other mine lo] obtain mine' where
      ar: "allotRange other mine lo hi = Some ((\<exists>h. lo \<le> h \<and> h \<le> hi \<and> other h), mine')"
          "(\<forall>h. lo \<le> h \<and> h \<le> hi \<longrightarrow> \<not> other h) \<longrightarrow> mine' = (\<lambda>h. mine h \<or> (lo \<le> h \<and> h \<le> hi))"
      by blast
    let ?hit = "\<exists>h. lo \<le> h \<and> h \<le> hi \<and> other h"
    have run: "routesStep b other mine ok idx = Some (?hit, mine', True, i + 1)"
      using True ns' lu(1) ar(1) by (simp add: routesStep_def)
    have h1: "?hit \<longrightarrow> (\<exists>h. allotment b h \<and> other h)"
    proof
      assume ?hit
      then obtain h where h: "lo \<le> h" "h \<le> hi" "other h" by blast
      then have "h \<in> hostRoutes i" using lu(3) by simp
      then have "allotment b h" using ti by (auto simp: allotment_def)
      then show "\<exists>h. allotment b h \<and> other h" using h(3) by blast
    qed
    have h2: "mine' = allotted b True (i + 1) \<and> (\<forall>h. mine' h \<and> other h \<longrightarrow> mine h)" if "\<not> ?hit"
    proof -
      have m': "mine' = (\<lambda>h. mine h \<or> (lo \<le> h \<and> h \<le> hi))" using ar(2) that by blast
      have "(\<lambda>h. mine h \<or> (lo \<le> h \<and> h \<le> hi)) = allotted b True (i + 1)"
      proof
        fix h
        have "(\<exists>j. Test b j \<and> j < i + 1 \<and> h \<in> hostRoutes j) \<longleftrightarrow>
              (\<exists>j. Test b j \<and> j < idx \<and> h \<in> hostRoutes j) \<or> h \<in> hostRoutes i"
        proof
          assume "\<exists>j. Test b j \<and> j < i + 1 \<and> h \<in> hostRoutes j"
          then obtain j where j: "Test b j" "j < i + 1" "h \<in> hostRoutes j" by blast
          show "(\<exists>j. Test b j \<and> j < idx \<and> h \<in> hostRoutes j) \<or> h \<in> hostRoutes i"
          proof (cases "j < idx")
            case True
            then show ?thesis using j by blast
          next
            case False
            then have "i \<le> j" using nf(3) [of j] j(1) by (simp add: Test_def)
            then have "j = i" using j(2) by simp
            then show ?thesis using j(3) by simp
          qed
        next
          assume "(\<exists>j. Test b j \<and> j < idx \<and> h \<in> hostRoutes j) \<or> h \<in> hostRoutes i"
          then show "\<exists>j. Test b j \<and> j < i + 1 \<and> h \<in> hostRoutes j"
          proof
            assume "\<exists>j. Test b j \<and> j < idx \<and> h \<in> hostRoutes j"
            then obtain j where "Test b j" "j < idx" "h \<in> hostRoutes j" by blast
            then show ?thesis using nf(2) by (intro exI [of _ j]) simp
          next
            assume "h \<in> hostRoutes i"
            then show ?thesis using ti by (intro exI [of _ i]) simp
          qed
        qed
        then show "(mine h \<or> (lo \<le> h \<and> h \<le> hi)) = allotted b True (i + 1) h"
          using mine True lu(3) by (simp add: allotted_def)
      qed
      then have "mine' = allotted b True (i + 1)" using m' by simp
      moreover have "\<forall>h. mine' h \<and> other h \<longrightarrow> mine h" using m' that by auto
      ultimately show ?thesis by simp
    qed
    show ?thesis using run h1 h2 by blast
  qed
qed

lemma allotted_allotment: "allotted b ok idx h \<Longrightarrow> allotment b h"
  by (auto simp: allotted_def allotment_def)

lemma allotted_done: "allotted b False idx = allotment b"
  by (simp add: allotted_def allotment_def)

lemma zigzagRoutes_spec:
  "fset nb \<subseteq> {1..511} \<Longrightarrow> fset ob \<subseteq> {1..511} \<Longrightarrow>
   nA = allotted nb nOk nIdx \<Longrightarrow> oA = allotted ob oOk oIdx \<Longrightarrow> (\<forall>h. \<not> (nA h \<and> oA h)) \<Longrightarrow>
   \<exists>hit NA OA. zigzagRoutes nb ob nA oA nOk oOk nIdx oIdx = Some (hit, NA, OA) \<and>
      (hit \<longleftrightarrow> (\<exists>h. allotment nb h \<and> allotment ob h)) \<and>
      (\<not> hit \<longrightarrow> NA = allotment nb \<and> OA = allotment ob)"
proof (induction nb ob nA oA nOk oOk nIdx oIdx rule: zigzagRoutes.induct)
  case (1 nb ob nA oA nOk oOk nIdx oIdx)
  note vn = "1.prems"(1) and vo = "1.prems"(2) and mn = "1.prems"(3) and mo = "1.prems"(4)
    and dis = "1.prems"(5)
  let ?X = "\<exists>h. allotment nb h \<and> allotment ob h"
  obtain nHit nA' nOk' nIdx' where
    s1: "routesStep nb oA nA nOk nIdx = Some (nHit, nA', nOk', nIdx')"
    and h1: "nHit \<longrightarrow> (\<exists>h. allotment nb h \<and> oA h)"
    and k1: "\<not> nHit \<longrightarrow> nA' = allotted nb nOk' nIdx' \<and> (\<forall>h. nA' h \<and> oA h \<longrightarrow> nA h)"
    using routesStep_spec [OF vn mn, of oA] by blast
  show ?case
  proof (cases nHit)
    case True
    then obtain h where "allotment nb h" "oA h" using h1 by blast
    then have ?X using mo allotted_allotment by blast
    moreover have "zigzagRoutes nb ob nA oA nOk oOk nIdx oIdx = Some (True, nA', oA)"
      using s1 True by (subst zigzagRoutes.simps) simp
    ultimately show ?thesis by blast
  next
    case nh: False
    have mn': "nA' = allotted nb nOk' nIdx'" and dis1: "\<forall>h. \<not> (nA' h \<and> oA h)"
      using k1 nh dis by blast+
    obtain oHit oA' oOk' oIdx' where
      s2: "routesStep ob nA' oA oOk oIdx = Some (oHit, oA', oOk', oIdx')"
      and h2: "oHit \<longrightarrow> (\<exists>h. allotment ob h \<and> nA' h)"
      and k2: "\<not> oHit \<longrightarrow> oA' = allotted ob oOk' oIdx' \<and> (\<forall>h. oA' h \<and> nA' h \<longrightarrow> oA h)"
      using routesStep_spec [OF vo mo, of nA'] by blast
    show ?thesis
    proof (cases oHit)
      case True
      then obtain h where "allotment ob h" "nA' h" using h2 by blast
      then have ?X using mn' allotted_allotment by blast
      moreover have "zigzagRoutes nb ob nA oA nOk oOk nIdx oIdx = Some (True, nA', oA')"
        using s1 nh s2 True by (subst zigzagRoutes.simps) simp
      ultimately show ?thesis by blast
    next
      case oh: False
      have mo': "oA' = allotted ob oOk' oIdx'" and dis2: "\<forall>h. \<not> (nA' h \<and> oA' h)"
        using k2 oh dis1 by blast+
      show ?thesis
      proof (cases "\<not> nOk' \<and> \<not> oOk'")
        case True
        have fin: "nA' = allotment nb" "oA' = allotment ob"
          using mn' mo' True by (simp_all add: allotted_done)
        then have "\<not> ?X" using dis2 by simp
        moreover have "zigzagRoutes nb ob nA oA nOk oOk nIdx oIdx = Some (False, nA', oA')"
          using s1 nh s2 oh True by (subst zigzagRoutes.simps) simp
        ultimately show ?thesis using fin by blast
      next
        case False
        have "zigzagRoutes nb ob nA oA nOk oOk nIdx oIdx =
              zigzagRoutes nb ob nA' oA' nOk' oOk' nIdx' oIdx'"
          using s1 nh s2 oh False by (subst zigzagRoutes.simps) auto
        then show ?thesis
          using "1.IH" [OF s1 refl refl refl nh s2 refl refl refl oh False vn vo mn' mo' dis2]
          by simp
      qed
    qed
  qed
qed

lemma fullRun_hit: "fullRun nA oA \<Longrightarrow> \<exists>h. nA h \<and> oA h"
  by (auto simp: fullRun_def list_ex_iff)

lemma marked_done: "marked b False idx = Test b"
  by (simp add: marked_def)

lemma octetsStep_spec:
  assumes valid: "fset b \<subseteq> {..255}" and octets: "octets = marked b ok octet"
  shows "\<exists>hit octets' ok' octet'.
           octetsStep b other octets ok octet = Some (hit, octets', ok', octet') \<and>
           (hit \<longrightarrow> (\<exists>c. Test b c \<and> other (c + firstHostIndex))) \<and>
           (\<not> hit \<longrightarrow> octets' = marked b ok' octet' \<and>
              (\<forall>c. octets' c \<and> other (c + firstHostIndex) \<longrightarrow> octets c))"
proof (cases ok)
  case False
  then have "octetsStep b other octets ok octet = Some (False, octets, ok, octet)"
    by (simp add: octetsStep_def)
  then show ?thesis using octets by blast
next
  case True
  obtain c found where ns: "NextSet b octet = (c, found)" by (cases "NextSet b octet")
  show ?thesis
  proof (cases found)
    case False
    have ns': "NextSet b octet = (c, False)" using ns False by simp
    have "marked b True octet = marked b False c"
      using NextSet_none(2) [OF ns'] by (auto simp: marked_def Test_def fun_eq_iff)
    then have "octets = marked b False c" using octets True by simp
    moreover have "octetsStep b other octets ok octet = Some (False, octets, False, c)"
      using True ns' by (simp add: octetsStep_def)
    ultimately show ?thesis by blast
  next
    case f: True
    have ns': "NextSet b octet = (c, True)" using ns f by simp
    note nf = NextSet_found [OF ns']
    have tc: "Test b c" using nf(1) by (simp add: Test_def)
    have vc: "c < 256" using valid nf(1) by auto
    show ?thesis
    proof (cases "other (c + firstHostIndex)")
      case True
      have "octetsStep b other octets ok octet = Some (True, octets, True, c)"
        using \<open>ok\<close> ns' vc True
        by (simp add: octetsStep_def firstHostIndex_def maxNodePrefixes_def)
      then show ?thesis using tc True by blast
    next
      case False
      have run: "octetsStep b other octets ok octet = Some (False, octets(c := True), True, c + 1)"
        using \<open>ok\<close> ns' vc False
        by (simp add: octetsStep_def firstHostIndex_def maxNodePrefixes_def maxNodeChildren_def)
      have "octets(c := True) = marked b True (c + 1)"
      proof
        fix x
        show "(octets(c := True)) x = marked b True (c + 1) x"
        proof (cases "x = c")
          case True
          then show ?thesis using tc by (simp add: marked_def)
        next
          case ne: False
          have "Test b x \<and> x < octet \<longleftrightarrow> Test b x \<and> x < c + 1"
          proof
            assume "Test b x \<and> x < octet"
            then show "Test b x \<and> x < c + 1" using nf(2) by simp
          next
            assume a: "Test b x \<and> x < c + 1"
            have "x < octet"
            proof (rule ccontr)
              assume "\<not> x < octet"
              then have "c \<le> x" using nf(3) [of x] a by (simp add: Test_def)
              then show False using a ne by simp
            qed
            then show "Test b x \<and> x < octet" using a by simp
          qed
          then show ?thesis using ne octets \<open>ok\<close> by (simp add: marked_def)
        qed
      qed
      moreover have "\<forall>x. (octets(c := True)) x \<and> other (x + firstHostIndex) \<longrightarrow> octets x"
        using False by auto
      ultimately show ?thesis using run by blast
    qed
  qed
qed

lemma zigzagChildren_spec:
  "fset nb \<subseteq> {..255} \<Longrightarrow> fset ob \<subseteq> {..255} \<Longrightarrow>
   nO = marked nb nOk nOctet \<Longrightarrow> oO = marked ob oOk oOctet \<Longrightarrow>
   (\<forall>c. nO c \<longrightarrow> \<not> oA (c + firstHostIndex)) \<Longrightarrow> (\<forall>c. oO c \<longrightarrow> \<not> nA (c + firstHostIndex)) \<Longrightarrow>
   \<exists>hit nOs oOs. zigzagChildren nb ob nA oA nO oO nOk oOk nOctet oOctet = Some (hit, nOs, oOs) \<and>
      (hit \<longleftrightarrow> (\<exists>c. Test nb c \<and> oA (c + firstHostIndex)) \<or> (\<exists>c. Test ob c \<and> nA (c + firstHostIndex))) \<and>
      (\<not> hit \<longrightarrow> nOs = Test nb \<and> oOs = Test ob)"
proof (induction nb ob nA oA nO oO nOk oOk nOctet oOctet rule: zigzagChildren.induct)
  case (1 nb ob nA oA nO oO nOk oOk nOctet oOctet)
  note vn = "1.prems"(1) and vo = "1.prems"(2) and mn = "1.prems"(3) and mo = "1.prems"(4)
    and dn = "1.prems"(5) and dO = "1.prems"(6)
  let ?X = "(\<exists>c. Test nb c \<and> oA (c + firstHostIndex)) \<or> (\<exists>c. Test ob c \<and> nA (c + firstHostIndex))"
  obtain nHit nO' nOk' nOctet' where
    s1: "octetsStep nb oA nO nOk nOctet = Some (nHit, nO', nOk', nOctet')"
    and h1: "nHit \<longrightarrow> (\<exists>c. Test nb c \<and> oA (c + firstHostIndex))"
    and k1: "\<not> nHit \<longrightarrow> nO' = marked nb nOk' nOctet' \<and>
               (\<forall>c. nO' c \<and> oA (c + firstHostIndex) \<longrightarrow> nO c)"
    using octetsStep_spec [OF vn mn, of oA] by blast
  show ?case
  proof (cases nHit)
    case True
    then have ?X using h1 by blast
    moreover have "zigzagChildren nb ob nA oA nO oO nOk oOk nOctet oOctet = Some (True, nO', oO)"
      using s1 True by (subst zigzagChildren.simps) simp
    ultimately show ?thesis by blast
  next
    case nh: False
    have mn': "nO' = marked nb nOk' nOctet'" and dn': "\<forall>c. nO' c \<longrightarrow> \<not> oA (c + firstHostIndex)"
      using k1 nh dn by blast+
    obtain oHit oO' oOk' oOctet' where
      s2: "octetsStep ob nA oO oOk oOctet = Some (oHit, oO', oOk', oOctet')"
      and h2: "oHit \<longrightarrow> (\<exists>c. Test ob c \<and> nA (c + firstHostIndex))"
      and k2: "\<not> oHit \<longrightarrow> oO' = marked ob oOk' oOctet' \<and>
                 (\<forall>c. oO' c \<and> nA (c + firstHostIndex) \<longrightarrow> oO c)"
      using octetsStep_spec [OF vo mo, of nA] by blast
    show ?thesis
    proof (cases oHit)
      case True
      then have ?X using h2 by blast
      moreover have "zigzagChildren nb ob nA oA nO oO nOk oOk nOctet oOctet = Some (True, nO', oO')"
        using s1 nh s2 True by (subst zigzagChildren.simps) simp
      ultimately show ?thesis by blast
    next
      case oh: False
      have mo': "oO' = marked ob oOk' oOctet'" and dO': "\<forall>c. oO' c \<longrightarrow> \<not> nA (c + firstHostIndex)"
        using k2 oh dO by blast+
      show ?thesis
      proof (cases "\<not> nOk' \<and> \<not> oOk'")
        case True
        have fin: "nO' = Test nb" "oO' = Test ob"
          using mn' mo' True by (simp_all add: marked_done)
        then have "\<not> ?X" using dn' dO' by simp
        moreover have "zigzagChildren nb ob nA oA nO oO nOk oOk nOctet oOctet = Some (False, nO', oO')"
          using s1 nh s2 oh True by (subst zigzagChildren.simps) simp
        ultimately show ?thesis using fin by blast
      next
        case False
        have "zigzagChildren nb ob nA oA nO oO nOk oOk nOctet oOctet =
              zigzagChildren nb ob nA oA nO' oO' nOk' oOk' nOctet' oOctet'"
          using s1 nh s2 oh False by (subst zigzagChildren.simps) auto
        then show ?thesis
          using "1.IH" [OF s1 refl refl refl nh s2 refl refl refl oh False vn vo mn' mo' dn' dO']
          by simp
      qed
    qed
  qed
qed

section \<open>Overlap of two tries is symmetric\<close>

lemma indices_ok_iff:
  "indices_ok n \<longleftrightarrow> fset (prefixesBitset n) \<subseteq> {1..511} \<and> (\<forall>c \<in> set (children n). indices_ok c)"
  by (cases n) simp

lemma childAt_indices_ok: "node_inv n \<Longrightarrow> indices_ok n \<Longrightarrow> childAt n c = Some ch \<Longrightarrow> indices_ok ch"
  using valAt_in_set [of "children n" "childrenBitset n" c ch]
  by (auto simp: node_inv_iff [of n] indices_ok_iff [of n] childAt_def)

lemma allotted_start: "(\<not> ok \<longrightarrow> b = {||}) \<Longrightarrow> (\<lambda>h. False) = allotted b ok 0"
  by (auto simp: allotted_def Test_def fun_eq_iff)

lemma marked_start: "(\<not> ok \<longrightarrow> b = {||}) \<Longrightarrow> (\<lambda>c. False) = marked b ok 0"
  by (auto simp: marked_def Test_def fun_eq_iff)

lemma length_pos_iff: "length xs = Count b \<Longrightarrow> \<not> 0 < length xs \<longrightarrow> b = {||}"
  by (simp add: Count_0)

lemma childAt_Some_iff: "(\<exists>ch. childAt n c = Some ch) \<longleftrightarrow> Test (childrenBitset n) c"
  by (simp add: childAt_def valAt_def)

lemma overlapsRec_char:
  "node_inv n \<Longrightarrow> indices_ok n \<Longrightarrow> node_inv m \<Longrightarrow> indices_ok m \<Longrightarrow>
   overlapsRec n m =
     Some (routes_meet n m \<or> child_in_route n m \<or> child_in_route m n \<or> children_overlap n m 0)"
  and sameChildren_char:
  "node_inv n \<Longrightarrow> indices_ok n \<Longrightarrow> node_inv m \<Longrightarrow> indices_ok m \<Longrightarrow>
   nO = Test (childrenBitset n) \<Longrightarrow> oO = Test (childrenBitset m) \<Longrightarrow>
   sameChildren n m nO oO i = Some (children_overlap n m i)"
proof (induction n m and n m nO oO i rule: overlapsRec_sameChildren.induct)
  case (1 n m)
  note inv = "1.prems"
  let ?nb = "prefixesBitset n" and ?ob = "prefixesBitset m"
  let ?nc = "childrenBitset n" and ?oc = "childrenBitset m"
  have len: "length (prefixes n) = Count ?nb" "length (prefixes m) = Count ?ob"
    "length (children n) = Count ?nc" "length (children m) = Count ?oc"
    using inv(1,3) by (simp_all add: node_inv_iff [of n] node_inv_iff [of m])
  have vp: "fset ?nb \<subseteq> {1..511}" "fset ?ob \<subseteq> {1..511}"
    using inv(2,4) by (simp_all add: indices_ok_iff [of n] indices_ok_iff [of m])
  have vc: "fset ?nc \<subseteq> {..255}" "fset ?oc \<subseteq> {..255}"
    using inv(1,3) by (auto simp: node_inv_iff [of n] node_inv_iff [of m] Test_def)
  obtain hit1 nA oA where
    z1: "zigzagRoutes ?nb ?ob (\<lambda>i. False) (\<lambda>i. False) (0 < length (prefixes n))
           (0 < length (prefixes m)) 0 0 = Some (hit1, nA, oA)"
    and r1: "hit1 \<longleftrightarrow> routes_meet n m"
    and a1: "\<not> hit1 \<longrightarrow> nA = allotment ?nb \<and> oA = allotment ?ob"
    using zigzagRoutes_spec [OF vp allotted_start [OF length_pos_iff [OF len(1)]]
        allotted_start [OF length_pos_iff [OF len(2)]]]
    unfolding routes_meet_def by blast
  show ?case
  proof (cases hit1)
    case True
    then show ?thesis using z1 r1 by (subst overlapsRec.simps) simp
  next
    case nh1: False
    have al: "nA = allotment ?nb" "oA = allotment ?ob" using a1 nh1 by simp_all
    have nfull: "\<not> (0 < length (prefixes n) \<and> 0 < length (prefixes m) \<and> fullRun nA oA)"
      using fullRun_hit [of nA oA] r1 nh1 al by (auto simp: routes_meet_def)
    obtain hit2 nOs oOs where
      z2: "zigzagChildren ?nc ?oc nA oA (\<lambda>i. False) (\<lambda>i. False) (0 < length (children n))
             (0 < length (children m)) 0 0 = Some (hit2, nOs, oOs)"
      and r2: "hit2 \<longleftrightarrow> child_in_route n m \<or> child_in_route m n"
      and a2: "\<not> hit2 \<longrightarrow> nOs = Test ?nc \<and> oOs = Test ?oc"
      using zigzagChildren_spec [OF vc marked_start [OF length_pos_iff [OF len(3)]]
          marked_start [OF length_pos_iff [OF len(4)]], of oA nA]
      unfolding child_in_route_def al by blast
    show ?thesis
    proof (cases hit2)
      case True
      then show ?thesis using z1 nh1 nfull z2 r2 by (subst overlapsRec.simps) auto
    next
      case nh2: False
      have os: "nOs = Test ?nc" "oOs = Test ?oc" using a2 nh2 by simp_all
      show ?thesis
      proof (cases "0 < length (children n) \<and> 0 < length (children m)")
        case True
        have "sameChildren n m nOs oOs 0 = Some (children_overlap n m 0)"
          using "1.IH" [OF z1 refl refl nh1 nfull z2 refl refl nh2 True inv os] .
        moreover have "overlapsRec n m = sameChildren n m nOs oOs 0"
          using z1 nh1 nfull z2 nh2 True by (subst overlapsRec.simps) auto
        ultimately show ?thesis using r1 nh1 r2 nh2 by simp
      next
        case False
        then have "?nc = {||} \<or> ?oc = {||}" using len(3,4) by (auto simp: Count_0)
        then have "\<not> children_overlap n m 0"
          by (auto simp: children_overlap_def childAt_def valAt_def Test_def)
        moreover have "overlapsRec n m = Some False"
          using z1 nh1 nfull z2 nh2 False by (subst overlapsRec.simps) auto
        ultimately show ?thesis using r1 nh1 r2 nh2 by simp
      qed
    qed
  qed
next
  case (2 n m nO oO i)
  note inv = "2.prems"(1-4) and nO = "2.prems"(5) and oO = "2.prems"(6)
  have len: "length (children n) = Count (childrenBitset n)"
    "length (children m) = Count (childrenBitset m)"
    using inv(1,3) by (simp_all add: node_inv_iff [of n] node_inv_iff [of m])
  show ?case
  proof (cases "i < maxNodeChildren")
    case False
    have "\<not> children_overlap n m i"
    proof
      assume "children_overlap n m i"
      then obtain c nc where "i \<le> c" "childAt n c = Some nc"
        by (auto simp: children_overlap_def)
      then show False using childAt_octet [OF inv(1)] False by (force simp: maxNodeChildren_def)
    qed
    then show ?thesis using False by (subst sameChildren.simps) simp
  next
    case lt: True
    then have u: "unat (of_nat i :: octet) = i"
      by (simp add: unat_of_nat_octet maxNodeChildren_def)
    have gn: "getChild n (of_nat i) = Some (childAt n i)"
      using getChild_childAt [OF len(1), of "of_nat i"] u by simp
    have gm: "getChild m (of_nat i) = Some (childAt m i)"
      using getChild_childAt [OF len(2), of "of_nat i"] u by simp
    have shift: "children_overlap n m i \<longleftrightarrow> children_overlap n m (i + 1)"
      if "\<not> (\<exists>nc mc. childAt n i = Some nc \<and> childAt m i = Some mc \<and> overlapsRec nc mc = Some True)"
    proof
      assume "children_overlap n m i"
      then obtain c nc mc where c: "i \<le> c" "childAt n c = Some nc" "childAt m c = Some mc"
        "overlapsRec nc mc = Some True" by (auto simp: children_overlap_def)
      then have "c \<noteq> i" using that by auto
      then have "i + 1 \<le> c" using c(1) by simp
      then show "children_overlap n m (i + 1)" using c(2,3,4) unfolding children_overlap_def by blast
    next
      assume "children_overlap n m (i + 1)"
      then obtain c nc mc where c: "i + 1 \<le> c" "childAt n c = Some nc" "childAt m c = Some mc"
        "overlapsRec nc mc = Some True" by (auto simp: children_overlap_def)
      then have "i \<le> c" by simp
      then show "children_overlap n m i" using c(2,3,4) unfolding children_overlap_def by blast
    qed
    show ?thesis
    proof (cases "nO i \<and> oO i")
      case False
      then have "\<not> (\<exists>nc mc. childAt n i = Some nc \<and> childAt m i = Some mc \<and> overlapsRec nc mc = Some True)"
        using nO oO childAt_Some_iff [of n i] childAt_Some_iff [of m i] by auto
      then have "children_overlap n m i \<longleftrightarrow> children_overlap n m (i + 1)" by (rule shift)
      moreover have "sameChildren n m nO oO i = sameChildren n m nO oO (i + 1)"
        using lt False by (subst sameChildren.simps) auto
      ultimately show ?thesis using "2.IH"(3) [OF lt False inv nO oO] by simp
    next
      case True
      then obtain nc mc where ch: "childAt n i = Some nc" "childAt m i = Some mc"
        using nO oO childAt_Some_iff [of n i] childAt_Some_iff [of m i] by auto
      have ci: "node_inv nc" "indices_ok nc" "node_inv mc" "indices_ok mc"
        using childAt_inv [OF inv(1) ch(1)] childAt_indices_ok [OF inv(1,2) ch(1)]
          childAt_inv [OF inv(3) ch(2)] childAt_indices_ok [OF inv(3,4) ch(2)] by simp_all
      define r where "r = (routes_meet nc mc \<or> child_in_route nc mc \<or> child_in_route mc nc \<or>
                           children_overlap nc mc 0)"
      have rec: "overlapsRec nc mc = Some r"
        using "2.IH"(1) [OF lt True gn gm ch ci] by (simp add: r_def)
      show ?thesis
      proof (cases r)
        case True
        then have "overlapsRec nc mc = Some True" using rec by simp
        then have "children_overlap n m i"
          using ch unfolding children_overlap_def by (intro exI [of _ i]) blast
        moreover have "sameChildren n m nO oO i = Some True"
          using lt \<open>nO i \<and> oO i\<close> gn gm ch rec True by (subst sameChildren.simps) simp
        ultimately show ?thesis by simp
      next
        case False
        then have "\<not> (\<exists>nc mc. childAt n i = Some nc \<and> childAt m i = Some mc \<and> overlapsRec nc mc = Some True)"
          using ch rec by auto
        then have "children_overlap n m i \<longleftrightarrow> children_overlap n m (i + 1)" by (rule shift)
        moreover have "sameChildren n m nO oO i = sameChildren n m nO oO (i + 1)"
          using lt \<open>nO i \<and> oO i\<close> gn gm ch rec False by (subst sameChildren.simps) simp
        ultimately show ?thesis
          using "2.IH"(2) [OF lt \<open>nO i \<and> oO i\<close> gn gm ch rec False inv nO oO] by simp
      qed
    qed
  qed
qed

lemma childAt_size: "node_inv n \<Longrightarrow> childAt n c = Some ch \<Longrightarrow> size ch < size n"
  using valAt_in_set [of "children n" "childrenBitset n" c ch]
  by (auto simp: node_inv_iff [of n] childAt_def intro: size_child)

text \<open>
  C5.  For two tries with the popcount correspondence, base indices in \<open>[1, 511]\<close> and
  child octets below 256, \<open>overlapsRec(a, b)\<close> returns without a panic and
  \<open>overlapsRec(a, b) = overlapsRec(b, a)\<close>.
\<close>

theorem overlapsRec_symmetric:
  assumes "node_inv a" "indices_ok a" "node_inv b" "indices_ok b"
  shows "overlapsRec a b = overlapsRec b a \<and> (\<exists>r. overlapsRec a b = Some r)"
  using assms
proof (induction "size a" arbitrary: a b rule: less_induct)
  case less
  note inv = less.prems
  have ab: "overlapsRec a b =
      Some (routes_meet a b \<or> child_in_route a b \<or> child_in_route b a \<or> children_overlap a b 0)"
    using overlapsRec_char [OF inv] .
  have ba: "overlapsRec b a =
      Some (routes_meet b a \<or> child_in_route b a \<or> child_in_route a b \<or> children_overlap b a 0)"
    using overlapsRec_char [OF inv(3,4,1,2)] .
  have rm: "routes_meet a b \<longleftrightarrow> routes_meet b a" by (auto simp: routes_meet_def)
  have sym: "overlapsRec nc mc = overlapsRec mc nc"
    if "childAt a c = Some nc" "childAt b c = Some mc" for c nc mc
  proof -
    have "size nc < size a" using childAt_size [OF inv(1) that(1)] .
    moreover have "node_inv nc" "indices_ok nc" "node_inv mc" "indices_ok mc"
      using childAt_inv [OF inv(1) that(1)] childAt_indices_ok [OF inv(1,2) that(1)]
        childAt_inv [OF inv(3) that(2)] childAt_indices_ok [OF inv(3,4) that(2)] by simp_all
    ultimately show ?thesis using less.hyps by blast
  qed
  have co: "children_overlap a b 0 \<longleftrightarrow> children_overlap b a 0"
  proof
    assume "children_overlap a b 0"
    then obtain c nc mc where c: "childAt a c = Some nc" "childAt b c = Some mc"
      "overlapsRec nc mc = Some True" by (auto simp: children_overlap_def)
    then have "overlapsRec mc nc = Some True" using sym [OF c(1,2)] by simp
    then show "children_overlap b a 0" using c(1,2) unfolding children_overlap_def by blast
  next
    assume "children_overlap b a 0"
    then obtain c mc nc where c: "childAt b c = Some mc" "childAt a c = Some nc"
      "overlapsRec mc nc = Some True" by (auto simp: children_overlap_def)
    then have "overlapsRec nc mc = Some True" using sym [OF c(2,1)] by simp
    then show "children_overlap a b 0" using c(1,2) unfolding children_overlap_def by blast
  qed
  show ?case using ab ba rm co by auto
qed

theorem overlapsRec_symmetric_witness:
  "node_inv (Node {|2|} {|200|} [1::nat] [Node {|1|} {||} [7] []]) \<and>
   indices_ok (Node {|2|} {|200|} [1::nat] [Node {|1|} {||} [7] []]) \<and>
   node_inv (Node {|4|} {||} [2::nat] []) \<and> indices_ok (Node {|4|} {||} [2::nat] []) \<and>
   overlapsRec (Node {|2|} {|200|} [1::nat] [Node {|1|} {||} [7] []]) (Node {|4|} {||} [2::nat] []) =
   overlapsRec (Node {|4|} {||} [2::nat] []) (Node {|2|} {|200|} [1::nat] [Node {|1|} {||} [7] []]) \<and>
   overlapsRec (Node {|2|} {|200|} [1::nat] [Node {|1|} {||} [7] []]) (Node {|4|} {||} [2::nat] []) = Some True"
proof -
  let ?a = "Node {|2|} {|200|} [1::nat] [Node {|1|} {||} [7] []]"
  let ?b = "Node {|4|} {||} [2::nat] []"
  have h1: "node_inv ?a" by (simp add: Count_def Test_def)
  have h2: "indices_ok ?a" by simp
  have h3: "node_inv ?b" by (simp add: Count_def Test_def)
  have h4: "indices_ok ?b" by simp
  have v: "overlapsRec ?a ?b = Some True" by code_simp
  show ?thesis
    using h1 h2 h3 h4 v overlapsRec_symmetric [OF h1 h2 h3 h4] by blast
qed

end
